theory Spec2Isabelle
  imports Main
begin

section \<open>Data model\<close>

text \<open>
  A package is the pair of its name and its version; \<open>operator==\<close> compares both
  fields, which is the equality of the record.
\<close>

record Package =
  name :: string
  version :: string

text \<open>
  \<open>unordered_map::at\<close> throws \<open>std::out_of_range\<close> on a missing key. It is the only
  exception the analyses can raise.
\<close>

datatype error = NotFound

text \<open>
  The adjacency map is iterated by the analyses, so it is an association list in iteration
  order; each dependency set is the list of its elements in iteration order. The standard
  leaves the position of a newly inserted key unspecified: the model appends it, and no
  theorem below depends on the position. The in-degree map is only looked up and updated,
  so it is a partial map. The counters are C++ \<open>int\<close>; they are modelled as integers,
  since no statement below concerns a counter leaving the 32-bit range.
\<close>

type_synonym adjacency = "(Package \<times> Package list) list"

record DependencyGraph =
  graph :: adjacency
  inDegree :: "Package \<rightharpoonup> int"

definition emptyGraph :: DependencyGraph where
  "emptyGraph = \<lparr>graph = [], inDegree = Map.empty\<rparr>"

section \<open>DependencyGraph\<close>

definition packageExists :: "DependencyGraph \<Rightarrow> Package \<Rightarrow> bool" where
  "packageExists g pkg = (map_of (graph g) pkg \<noteq> None)"

definition addPackage :: "DependencyGraph \<Rightarrow> Package \<Rightarrow> DependencyGraph" where
  "addPackage g pkg =
     (let g1 = (if map_of (graph g) pkg = None
                then g\<lparr>graph := graph g @ [(pkg, [])]\<rparr> else g)
      in g1\<lparr>inDegree := (inDegree g1)(pkg \<mapsto> 0)\<rparr>)"

text \<open>\<open>unordered_set::insert\<close>: no effect when the element is present.\<close>

definition insertDep :: "Package \<Rightarrow> Package list \<Rightarrow> Package list" where
  "insertDep d ds = (if d \<in> set ds then ds else ds @ [d])"

text \<open>\<open>graph[pkg].insert(dependency)\<close>: \<open>operator[]\<close> creates an empty set for a
  missing key before the insertion.\<close>

fun graphInsert :: "adjacency \<Rightarrow> Package \<Rightarrow> Package \<Rightarrow> adjacency" where
  "graphInsert [] pkg d = [(pkg, insertDep d [])]"
| "graphInsert ((k, ds) # rest) pkg d =
     (if k = pkg then (k, insertDep d ds) # rest else (k, ds) # graphInsert rest pkg d)"

text \<open>\<open>inDegree[dependency]++\<close>: \<open>operator[]\<close> creates the counter at 0 when it is
  missing.\<close>

definition addDependency :: "DependencyGraph \<Rightarrow> Package \<Rightarrow> Package \<Rightarrow> DependencyGraph" where
  "addDependency g pkg dependency =
     g\<lparr>graph := graphInsert (graph g) pkg dependency,
       inDegree := (inDegree g)(dependency \<mapsto>
          (case inDegree g dependency of None \<Rightarrow> 0 | Some n \<Rightarrow> n) + 1)\<rparr>"

definition getDependencies :: "DependencyGraph \<Rightarrow> Package \<Rightarrow> error + Package list" where
  "getDependencies g pkg =
     (case map_of (graph g) pkg of None \<Rightarrow> Inl NotFound | Some ds \<Rightarrow> Inr ds)"

definition getInDegree :: "DependencyGraph \<Rightarrow> Package \<Rightarrow> error + int" where
  "getInDegree g pkg = (case inDegree g pkg of None \<Rightarrow> Inl NotFound | Some n \<Rightarrow> Inr n)"

definition setInDegree :: "DependencyGraph \<Rightarrow> Package \<Rightarrow> int \<Rightarrow> DependencyGraph" where
  "setInDegree g pkg degree = g\<lparr>inDegree := (inDegree g)(pkg \<mapsto> degree)\<rparr>"

section \<open>Graph notions used by the statements\<close>

definition keys :: "DependencyGraph \<Rightarrow> Package set" where
  "keys g = fst ` set (graph g)"

text \<open>The packages that occur in some dependency set, and all packages of the graph.\<close>

definition targets :: "DependencyGraph \<Rightarrow> Package set" where
  "targets g = set (concat (map snd (graph g)))"

definition nodes :: "DependencyGraph \<Rightarrow> Package set" where
  "nodes g = keys g \<union> targets g"

text \<open>All (package, dependency) pairs, in the order a nested iteration meets them.\<close>

definition edgeList :: "adjacency \<Rightarrow> (Package \<times> Package) list" where
  "edgeList adj = concat (map (\<lambda>(p, ds). map (Pair p) ds) adj)"

definition edges :: "DependencyGraph \<Rightarrow> (Package \<times> Package) set" where
  "edges g = set (edgeList (graph g))"

text \<open>The packages whose dependency set contains \<open>t\<close>.\<close>

definition dependents :: "DependencyGraph \<Rightarrow> Package \<Rightarrow> Package set" where
  "dependents g t = {p. (p, t) \<in> edges g}"

section \<open>ConflictDetector, Visualizer, ImpactAnalyzer\<close>

text \<open>The text written to \<open>std::cout\<close> is modelled as the list of its lines.\<close>

definition resolveVersion :: "Package \<Rightarrow> Package \<Rightarrow> bool" where
  "resolveVersion pkg1 pkg2 = (version pkg1 = version pkg2)"

definition conflictMessage :: "Package \<Rightarrow> Package \<Rightarrow> string" where
  "conflictMessage pkg dep =
     ''Conflict detected: '' @ name pkg @ '' and '' @ name dep @ '' have incompatible versions.''"

text \<open>The inner loop of \<open>detectConflict\<close>: the line printed at the first dependency whose
  version differs, at which the function returns true.\<close>

fun detectConflictDeps :: "Package \<Rightarrow> Package list \<Rightarrow> string option" where
  "detectConflictDeps pkg [] = None"
| "detectConflictDeps pkg (dep # deps) =
     (if \<not> resolveVersion pkg dep then Some (conflictMessage pkg dep)
      else detectConflictDeps pkg deps)"

fun detectConflictLoop :: "adjacency \<Rightarrow> string list \<times> bool" where
  "detectConflictLoop [] = ([], False)"
| "detectConflictLoop ((pkg, deps) # rest) =
     (case detectConflictDeps pkg deps of
        Some line \<Rightarrow> ([line], True)
      | None \<Rightarrow> detectConflictLoop rest)"

definition detectConflict :: "DependencyGraph \<Rightarrow> string list \<times> bool" where
  "detectConflict g = detectConflictLoop (graph g)"

definition quoted :: "Package \<Rightarrow> string" where
  "quoted p = [CHR 0x22] @ name p @ '' '' @ version p @ [CHR 0x22]"

definition visualizeLine :: "Package \<Rightarrow> Package \<Rightarrow> string" where
  "visualizeLine p dep = ''  '' @ quoted p @ '' -> '' @ quoted dep @ '';''"

fun visualizeLoop :: "adjacency \<Rightarrow> string list" where
  "visualizeLoop [] = []"
| "visualizeLoop ((p, deps) # rest) = map (visualizeLine p) deps @ visualizeLoop rest"

definition visualize :: "DependencyGraph \<Rightarrow> string list" where
  "visualize g = [''digraph dependencies {''] @ visualizeLoop (graph g) @ [''}'']"

text \<open>The packages \<open>analyzeImpact\<close> reports, in the order of the iteration.\<close>

fun analyzeImpactLoop :: "adjacency \<Rightarrow> Package \<Rightarrow> Package list" where
  "analyzeImpactLoop [] pkg = []"
| "analyzeImpactLoop ((p, deps) # rest) pkg =
     (if pkg \<in> set deps then p # analyzeImpactLoop rest pkg else analyzeImpactLoop rest pkg)"

definition impactLine :: "Package \<Rightarrow> Package \<Rightarrow> string" where
  "impactLine pkg p = ''Package '' @ name p @ '' depends on '' @ name pkg"

definition analyzeImpact :: "DependencyGraph \<Rightarrow> Package \<Rightarrow> string list" where
  "analyzeImpact g pkg =
     (''Impact analysis for package: '' @ name pkg)
       # map (impactLine pkg) (analyzeImpactLoop (graph g) pkg)"

section \<open>CycleDetector\<close>

text \<open>
  The state of the traversal is the pair of the visited set and the recursion stack, both
  passed by reference in the source. \<open>detectCycleUtilDeps\<close> is the loop over the
  dependencies of a package inside \<open>detectCycleUtil\<close>. An exception discards the state.
\<close>

type_synonym dfsState = "Package set \<times> Package set"

function (sequential)
  detectCycleUtil :: "DependencyGraph \<Rightarrow> Package \<Rightarrow> dfsState \<Rightarrow> error + bool \<times> dfsState"
and
  detectCycleUtilDeps :: "DependencyGraph \<Rightarrow> Package list \<Rightarrow> dfsState \<Rightarrow> error + bool \<times> dfsState"
where
  "detectCycleUtil g pkg (visited, recStack) =
     (if pkg \<in> recStack then Inr (True, (visited, recStack))
      else if pkg \<in> visited then Inr (False, (visited, recStack))
      else case getDependencies g pkg of
             Inl e \<Rightarrow> Inl e
           | Inr deps \<Rightarrow>
               (case detectCycleUtilDeps g deps (insert pkg visited, insert pkg recStack) of
                  Inl e \<Rightarrow> Inl e
                | Inr (True, st) \<Rightarrow> Inr (True, st)
                | Inr (False, (visited', recStack')) \<Rightarrow>
                    Inr (False, (visited', recStack' - {pkg}))))"
| "detectCycleUtilDeps g [] st = Inr (False, st)"
| "detectCycleUtilDeps g (dep # deps) st =
     (case detectCycleUtil g dep st of
        Inl e \<Rightarrow> Inl e
      | Inr (True, st') \<Rightarrow> Inr (True, st')
      | Inr (False, st') \<Rightarrow> detectCycleUtilDeps g deps st')"
  by pat_completeness auto


text \<open>
  Termination: a call that goes past the two membership tests adds a registered package to
  the visited set, and the visited set never shrinks.
\<close>

lemma visited_mono_dom:
  "detectCycleUtil_detectCycleUtilDeps_dom (Inl (g, pkg, st)) \<Longrightarrow>
     (\<forall>b st'. detectCycleUtil g pkg st = Inr (b, st') \<longrightarrow> fst st \<subseteq> fst st')"
  "detectCycleUtil_detectCycleUtilDeps_dom (Inr (g, deps, st)) \<Longrightarrow>
     (\<forall>b st'. detectCycleUtilDeps g deps st = Inr (b, st') \<longrightarrow> fst st \<subseteq> fst st')"
proof (induction g pkg st and g deps st
        rule: detectCycleUtil_detectCycleUtilDeps.pinduct)
  case (1 g pkg visited recStack)
  show ?case
  proof (intro allI impI)
    fix b st'
    assume r: "detectCycleUtil g pkg (visited, recStack) = Inr (b, st')"
    show "fst (visited, recStack) \<subseteq> fst st'"
    proof (cases "pkg \<in> recStack \<or> pkg \<in> visited")
      case True
      with r "1.hyps" show ?thesis
        by (auto simp: detectCycleUtil.psimps split: if_splits)
    next
      case False
      with r "1.hyps" obtain deps where d: "getDependencies g pkg = Inr deps"
        by (auto simp: detectCycleUtil.psimps split: sum.splits)
      from r "1.hyps" False d obtain b2 st2 where
        l: "detectCycleUtilDeps g deps (insert pkg visited, insert pkg recStack) = Inr (b2, st2)"
        and s: "fst st' = fst st2"
        by (auto simp: detectCycleUtil.psimps split: sum.splits bool.splits prod.splits)
      from "1.IH"[of deps] False d l have "insert pkg visited \<subseteq> fst st2" by (cases st2) auto
      with s show ?thesis by auto
    qed
  qed
next
  case (2 g st)
  then show ?case by (simp add: detectCycleUtilDeps.psimps)
next
  case (3 g dep deps st)
  show ?case
  proof (intro allI impI)
    fix b st'
    assume r: "detectCycleUtilDeps g (dep # deps) st = Inr (b, st')"
    from r "3.hyps" obtain b1 st1 where u: "detectCycleUtil g dep st = Inr (b1, st1)"
      by (auto simp: detectCycleUtilDeps.psimps split: sum.splits)
    from "3.IH"(1) u have m1: "fst st \<subseteq> fst st1" by blast
    show "fst st \<subseteq> fst st'"
    proof (cases b1)
      case True
      with r u "3.hyps" have "st' = st1" by (simp add: detectCycleUtilDeps.psimps)
      with m1 show ?thesis by simp
    next
      case False
      with r u "3.hyps" have "detectCycleUtilDeps g deps st1 = Inr (b, st')"
        by (simp add: detectCycleUtilDeps.psimps)
      with "3.IH"(2)[of "(b1, st1)" b1 st1] u False have "fst st1 \<subseteq> fst st'" by blast
      with m1 show ?thesis by blast
    qed
  qed
qed

lemma getDependencies_key: "getDependencies g pkg = Inr deps \<Longrightarrow> pkg \<in> keys g"
  by (auto simp: getDependencies_def keys_def split: option.splits dest: map_of_SomeD intro: rev_image_eqI)

termination detectCycleUtil
proof (relation
    "(\<lambda>x. case x of Inl (g, pkg, st) \<Rightarrow> card (keys g - fst st)
                   | Inr (g, deps, st) \<Rightarrow> card (keys g - fst st))
     <*mlex*>
     (\<lambda>x. case x of Inl _ \<Rightarrow> 0 | Inr (g, deps, st) \<Rightarrow> Suc (length deps))
     <*mlex*> {}", goal_cases)
  case 1
  show ?case by (simp add: wf_mlex)
next
  case (2 g pkg visited recStack deps)
  then have "pkg \<in> keys g - visited" by (simp add: getDependencies_key)
  moreover have "finite (keys g - visited)" by (simp add: keys_def)
  ultimately have "card (keys g - insert pkg visited) < card (keys g - visited)"
    by (metis Diff_insert card_Diff1_less)
  then show ?case by (simp add: mlex_less)
next
  case (3 g dep deps st)
  show ?case by (rule mlex_leq) (simp_all add: mlex_less)
next
  case (4 g dep deps st x x2 y)
  from visited_mono_dom(1)[OF 4(4)] 4(1,2) have "fst st \<subseteq> fst y" by (cases y) auto
  then have "card (keys g - fst y) \<le> card (keys g - fst st)"
    by (intro card_mono) (auto simp: keys_def)
  then show ?case
    by (intro mlex_leq[where R = "_ <*mlex*> _"] mlex_less) simp_all
qed

declare detectCycleUtil.simps [simp del]

text \<open>The loop of \<open>detectCycle\<close> over the entries of the adjacency map.\<close>

fun detectCycleLoop :: "DependencyGraph \<Rightarrow> adjacency \<Rightarrow> dfsState \<Rightarrow> error + bool" where
  "detectCycleLoop g [] st = Inr False"
| "detectCycleLoop g ((pkg, deps) # rest) st =
     (case detectCycleUtil g pkg st of
        Inl e \<Rightarrow> Inl e
      | Inr (True, st') \<Rightarrow> Inr True
      | Inr (False, st') \<Rightarrow> detectCycleLoop g rest st')"

definition detectCycle :: "DependencyGraph \<Rightarrow> error + bool" where
  "detectCycle g = detectCycleLoop g (graph g) ({}, {})"

section \<open>TopologicalSorter\<close>

text \<open>
  \<open>seedQueue\<close> is the first loop of \<open>topologicalSort\<close>: it pushes every package
  whose counter is 0, and \<open>getInDegree\<close> raises when a package has no counter.
  \<open>relaxDependencies\<close> is the loop over the dependencies of the dequeued package: it
  stores the decremented counter and pushes the dependency when the counter read back is 0.
  \<open>kahnLoop\<close> is the \<open>while\<close> loop on the queue; \<open>getDependencies\<close> raises when
  the dequeued package has no adjacency entry.
\<close>

fun seedQueue :: "DependencyGraph \<Rightarrow> adjacency \<Rightarrow> Package list \<Rightarrow> error + Package list" where
  "seedQueue g [] queue = Inr queue"
| "seedQueue g ((pkg, deps) # rest) queue =
     (case getInDegree g pkg of
        Inl e \<Rightarrow> Inl e
      | Inr n \<Rightarrow> seedQueue g rest (if n = 0 then queue @ [pkg] else queue))"

fun relaxDependencies ::
  "Package list \<Rightarrow> DependencyGraph \<Rightarrow> Package list \<Rightarrow> error + DependencyGraph \<times> Package list" where
  "relaxDependencies [] g queue = Inr (g, queue)"
| "relaxDependencies (dep # deps) g queue =
     (case getInDegree g dep of
        Inl e \<Rightarrow> Inl e
      | Inr n \<Rightarrow>
          (let g' = setInDegree g dep (n - 1) in
           case getInDegree g' dep of
             Inl e \<Rightarrow> Inl e
           | Inr m \<Rightarrow> relaxDependencies deps g' (if m = 0 then queue @ [dep] else queue)))"

text \<open>
  The loop ends: a package is pushed only when its counter steps from 1 to 0, so the
  length of the queue plus the number of dependency targets with a positive counter
  decreases at every iteration.
\<close>

definition pending :: "DependencyGraph \<Rightarrow> Package set \<Rightarrow> Package set" where
  "pending g T = {d \<in> T. \<exists>n. inDegree g d = Some n \<and> 0 < n}"

lemma relaxDependencies_graph:
  "relaxDependencies deps g queue = Inr (g', queue') \<Longrightarrow> graph g' = graph g"
  by (induction deps arbitrary: g queue)
     (auto simp: getInDegree_def setInDegree_def Let_def split: option.splits if_splits)

lemma relaxDependencies_measure:
  "relaxDependencies deps g queue = Inr (g', queue') \<Longrightarrow> finite T \<Longrightarrow> set deps \<subseteq> T \<Longrightarrow>
     length queue' + card (pending g' T) \<le> length queue + card (pending g T)"
proof (induction deps arbitrary: g queue)
  case Nil
  then show ?case by simp
next
  case (Cons dep deps)
  from Cons.prems(1) obtain n where n: "inDegree g dep = Some n"
    by (auto simp: getInDegree_def split: option.splits)
  let ?g1 = "setInDegree g dep (n - 1)"
  let ?q1 = "if n - 1 = 0 then queue @ [dep] else queue"
  from Cons.prems(1) n have r: "relaxDependencies deps ?g1 ?q1 = Inr (g', queue')"
    by (simp add: getInDegree_def setInDegree_def)
  have fin: "finite (pending g T)" using Cons.prems(2) by (simp add: pending_def)
  have depT: "dep \<in> T" using Cons.prems(3) by simp
  have step: "length ?q1 + card (pending ?g1 T) \<le> length queue + card (pending g T)"
  proof (cases "n - 1 = 0")
    case True
    then have n1: "n = 1" by simp
    have sub: "pending ?g1 T \<subseteq> pending g T - {dep}"
      using n1 by (auto simp: pending_def setInDegree_def split: if_splits)
    have "dep \<in> pending g T" using n n1 depT by (simp add: pending_def)
    then have "card (pending g T - {dep}) < card (pending g T)"
      using fin by (rule card_Diff1_less[rotated])
    moreover have "card (pending ?g1 T) \<le> card (pending g T - {dep})"
      using sub fin by (intro card_mono) auto
    ultimately show ?thesis using n1 by simp
  next
    case False
    have "pending ?g1 T \<subseteq> pending g T"
      using n False by (auto simp: pending_def setInDegree_def split: if_splits)
    then have "card (pending ?g1 T) \<le> card (pending g T)"
      using fin by (intro card_mono) auto
    with False show ?thesis by simp
  qed
  from Cons.IH[OF r Cons.prems(2)] Cons.prems(3)
  have "length queue' + card (pending g' T) \<le> length ?q1 + card (pending ?g1 T)" by simp
  with step show ?case by linarith
qed

lemma getDependencies_targets: "getDependencies g pkg = Inr deps \<Longrightarrow> set deps \<subseteq> targets g"
  by (force simp: getDependencies_def targets_def split: option.splits dest!: map_of_SomeD)

function kahnLoop ::
  "DependencyGraph \<Rightarrow> Package list \<Rightarrow> Package list \<Rightarrow> error + Package list \<times> DependencyGraph" where
  "kahnLoop g [] sortedPackages = Inr (sortedPackages, g)"
| "kahnLoop g (pkg # queue) sortedPackages =
     (case getDependencies g pkg of
        Inl e \<Rightarrow> Inl e
      | Inr deps \<Rightarrow>
          (case relaxDependencies deps g queue of
             Inl e \<Rightarrow> Inl e
           | Inr (g', queue') \<Rightarrow> kahnLoop g' queue' (sortedPackages @ [pkg])))"
  by pat_completeness auto
termination
proof (relation "measure (\<lambda>(g, queue, sortedPackages). length queue + card (pending g (targets g)))",
       goal_cases)
  case 1
  show ?case by simp
next
  case (2 g pkg queue sortedPackages deps r g' queue')
  then have r: "relaxDependencies deps g queue = Inr (g', queue')" by simp
  have "length queue' + card (pending g' (targets g)) \<le> length queue + card (pending g (targets g))"
    using relaxDependencies_measure[OF r, of "targets g"] getDependencies_targets[OF 2(1)]
    by (simp add: targets_def)
  moreover have "targets g' = targets g"
    using relaxDependencies_graph[OF r] by (simp add: targets_def)
  ultimately show ?case by simp
qed

text \<open>
  What \<open>topologicalSort\<close> prints once the loop has ended. The function returns nothing in
  the source; the model returns the order it built, the lines it printed and the graph
  with the counters as the run leaves them.
\<close>

definition sortReport :: "DependencyGraph \<Rightarrow> Package list \<Rightarrow> string list" where
  "sortReport g sortedPackages =
     (if length sortedPackages \<noteq> length (graph g)
      then [''Cycle detected! Topological sort is not possible.'']
      else ''Topological Order (Build Order):''
             # map (\<lambda>pkg. name pkg @ '' '' @ version pkg) sortedPackages)"

record sortResult =
  sortedPackages :: "Package list"
  printed :: "string list"
  graphAfter :: DependencyGraph

definition topologicalSort :: "DependencyGraph \<Rightarrow> error + sortResult" where
  "topologicalSort g =
     (case seedQueue g (graph g) [] of
        Inl e \<Rightarrow> Inl e
      | Inr queue \<Rightarrow>
          (case kahnLoop g queue [] of
             Inl e \<Rightarrow> Inl e
           | Inr (order, g') \<Rightarrow>
               Inr \<lparr>sortedPackages = order, printed = sortReport g' order, graphAfter = g'\<rparr>))"

section \<open>Predicates of the statements and sample graphs\<close>

text \<open>\<open>unordered_map\<close> and \<open>unordered_set\<close> hold each key once.\<close>

definition wellFormed :: "DependencyGraph \<Rightarrow> bool" where
  "wellFormed g =
     (distinct (map fst (graph g)) \<and> list_all (\<lambda>(p, ds). distinct ds) (graph g))"

text \<open>Every dependency target has an adjacency entry of its own.\<close>

definition targetsRegistered :: "DependencyGraph \<Rightarrow> bool" where
  "targetsRegistered g = list_all (packageExists g) (concat (map snd (graph g)))"

text \<open>The number of packages whose dependency set contains \<open>p\<close>.\<close>

definition dependentCount :: "DependencyGraph \<Rightarrow> Package \<Rightarrow> nat" where
  "dependentCount g p = length (filter (\<lambda>(q, ds). p \<in> set ds) (graph g))"

text \<open>Freshly computed in-degrees: the counter of every package and of every dependency
  target is the number of packages that depend on it.\<close>

definition inDegreeFresh :: "DependencyGraph \<Rightarrow> bool" where
  "inDegreeFresh g =
     list_all (\<lambda>p. inDegree g p = Some (int (dependentCount g p)))
       (map fst (graph g) @ concat (map snd (graph g)))"

text \<open>\<open>p\<close> occurs in \<open>xs\<close> and \<open>d\<close> occurs after the first occurrence of \<open>p\<close>.\<close>

fun precedes :: "'a \<Rightarrow> 'a \<Rightarrow> 'a list \<Rightarrow> bool" where
  "precedes p d [] = False"
| "precedes p d (x # xs) = (if x = p then d \<in> set xs else precedes p d xs)"

text \<open>The dependency targets without an adjacency entry, and the graph in which each of
  them is registered with an empty dependency set.\<close>

definition orphans :: "DependencyGraph \<Rightarrow> Package list" where
  "orphans g = remdups (filter (\<lambda>d. \<not> packageExists g d) (concat (map snd (graph g))))"

definition registerOrphans :: "DependencyGraph \<Rightarrow> DependencyGraph" where
  "registerOrphans g = g\<lparr>graph := graph g @ map (\<lambda>d. (d, [])) (orphans g)\<rparr>"

text \<open>The packages and the graph of the source's \<open>main\<close>.\<close>

definition pkgA :: Package where "pkgA = \<lparr>name = ''pkgA'', version = ''1.0.1''\<rparr>"
definition pkgB :: Package where "pkgB = \<lparr>name = ''pkgB'', version = ''2.3.0''\<rparr>"
definition pkgC :: Package where "pkgC = \<lparr>name = ''pkgC'', version = ''3.1.2''\<rparr>"
definition pkgD :: Package where "pkgD = \<lparr>name = ''pkgD'', version = ''1.5.0''\<rparr>"

definition mainGraph :: DependencyGraph where
  "mainGraph =
     addDependency (addDependency (addDependency
       (addPackage (addPackage (addPackage (addPackage emptyGraph pkgA) pkgB) pkgC) pkgD)
       pkgA pkgB) pkgB pkgC) pkgA pkgD"

text \<open>\<open>pkgA\<close> depends on \<open>pkgB\<close>, and \<open>pkgB\<close> was never registered.\<close>

definition orphanGraph :: DependencyGraph where
  "orphanGraph = addDependency (addPackage emptyGraph pkgA) pkgA pkgB"

text \<open>The graph of \<open>main\<close> with the edge from \<open>pkgC\<close> to \<open>pkgA\<close> added: a cycle.\<close>

definition cycleGraph :: DependencyGraph where
  "cycleGraph = addDependency mainGraph pkgC pkgA"

text \<open>
  \<open>pkgA\<close> and \<open>pkgC\<close> both depend on the unregistered \<open>pkgB\<close>, and \<open>pkgC\<close>
  depends on itself; the same graph as one run of the sort leaves it.
\<close>

definition orphanCycleGraph :: DependencyGraph where
  "orphanCycleGraph =
     addDependency (addDependency (addDependency
       (addPackage (addPackage emptyGraph pkgA) pkgC) pkgA pkgB) pkgC pkgC) pkgC pkgB"

definition orphanCycleGraphSorted :: DependencyGraph where
  "orphanCycleGraphSorted =
     \<lparr>graph = [(pkgA, [pkgB]), (pkgC, [pkgC, pkgB])],
      inDegree = [pkgA \<mapsto> 0, pkgB \<mapsto> 1, pkgC \<mapsto> 1]\<rparr>"

text \<open>The graph of \<open>main\<close> as one and as two runs of the sort leave it.\<close>

definition mainGraphSorted :: DependencyGraph where
  "mainGraphSorted =
     \<lparr>graph = [(pkgA, [pkgB, pkgD]), (pkgB, [pkgC]), (pkgC, []), (pkgD, [])],
      inDegree = [pkgA \<mapsto> 0, pkgB \<mapsto> 0, pkgC \<mapsto> 0, pkgD \<mapsto> 0]\<rparr>"

definition mainGraphSortedTwice :: DependencyGraph where
  "mainGraphSortedTwice =
     \<lparr>graph = [(pkgA, [pkgB, pkgD]), (pkgB, [pkgC]), (pkgC, []), (pkgD, [])],
      inDegree = [pkgA \<mapsto> 0, pkgB \<mapsto> - 1, pkgC \<mapsto> - 1, pkgD \<mapsto> - 1]\<rparr>"

text \<open>\<open>pkgB\<close> registered again after \<open>pkgA\<close> was made to depend on it, and the edge from
  \<open>pkgA\<close> to \<open>pkgB\<close> added twice.\<close>

definition reRegisteredGraph :: DependencyGraph where
  "reRegisteredGraph =
     addPackage (addDependency (addPackage (addPackage emptyGraph pkgA) pkgB) pkgA pkgB) pkgB"

definition doubleEdgeGraph :: DependencyGraph where
  "doubleEdgeGraph =
     addDependency (addDependency (addPackage (addPackage emptyGraph pkgA) pkgB) pkgA pkgB)
       pkgA pkgB"

section \<open>Invariants of the two traversals\<close>

text \<open>
  The search keeps the recursion stack inside the visited set and the visited set inside
  the packages of the graph; the finished packages (visited, not on the stack) are closed
  under the edges and lie on no cycle. \<open>dfsPost\<close> relates the state before a call to
  its outcome, for the set \<open>D\<close> of packages the call was started on.
\<close>

definition dfsInv :: "DependencyGraph \<Rightarrow> dfsState \<Rightarrow> bool" where
  "dfsInv g st =
     (snd st \<subseteq> fst st \<and> fst st \<subseteq> keys g
      \<and> (\<forall>v w. v \<in> fst st - snd st \<and> (v, w) \<in> edges g \<longrightarrow> w \<in> fst st - snd st)
      \<and> (\<forall>v. v \<in> fst st - snd st \<longrightarrow> (v, v) \<notin> (edges g)\<^sup>+))"

definition dfsPost ::
  "DependencyGraph \<Rightarrow> dfsState \<Rightarrow> Package set \<Rightarrow> error + bool \<times> dfsState \<Rightarrow> bool" where
  "dfsPost g st D res =
     (case res of
        Inl e \<Rightarrow> \<exists>x. x \<notin> keys g \<and> (x \<in> D \<or> x \<in> targets g)
      | Inr (b, st') \<Rightarrow>
          if b then \<not> acyclic (edges g)
          else dfsInv g st' \<and> snd st' = snd st \<and> fst st \<subseteq> fst st' \<and> D \<subseteq> fst st' - snd st')"

text \<open>
  \<open>depsBefore g seen xs\<close>: every element of \<open>xs\<close> has all its dependents in \<open>seen\<close>
  or earlier in \<open>xs\<close>. The loop of the sort keeps: the placed and the queued packages are
  distinct, the placed ones are registered, each counter is the number of dependents not
  yet placed, and a package is placed or queued exactly when all its dependents are placed.
\<close>

fun depsBefore :: "DependencyGraph \<Rightarrow> Package set \<Rightarrow> Package list \<Rightarrow> bool" where
  "depsBefore g seen [] = True"
| "depsBefore g seen (x # xs) = (dependents g x \<subseteq> seen \<and> depsBefore g (insert x seen) xs)"

definition kahnInv :: "DependencyGraph \<Rightarrow> Package list \<Rightarrow> Package list \<Rightarrow> bool" where
  "kahnInv g queue srt =
     (distinct (srt @ queue) \<and> set srt \<subseteq> keys g
      \<and> (\<forall>p. p \<in> nodes g \<longrightarrow> inDegree g p = Some (int (card (dependents g p - set srt))))
      \<and> set (srt @ queue) = {p. p \<in> nodes g \<and> dependents g p \<subseteq> set srt}
      \<and> depsBefore g {} (srt @ queue))"

section \<open>Evaluation of the sample graphs\<close>

lemma pkg_distinct:
  "pkgA \<noteq> pkgB" "pkgA \<noteq> pkgC" "pkgA \<noteq> pkgD" "pkgB \<noteq> pkgC" "pkgB \<noteq> pkgD" "pkgC \<noteq> pkgD"
  "pkgB \<noteq> pkgA" "pkgC \<noteq> pkgA" "pkgD \<noteq> pkgA" "pkgC \<noteq> pkgB" "pkgD \<noteq> pkgB" "pkgD \<noteq> pkgC"
  by (simp_all add: pkgA_def pkgB_def pkgC_def pkgD_def)

lemma mainGraph_graph:
  "graph mainGraph = [(pkgA, [pkgB, pkgD]), (pkgB, [pkgC]), (pkgC, []), (pkgD, [])]"
  by (simp add: mainGraph_def addDependency_def addPackage_def emptyGraph_def insertDep_def
      pkg_distinct)

lemma mainGraph_inDegree:
  "inDegree mainGraph = [pkgA \<mapsto> 0, pkgB \<mapsto> 1, pkgC \<mapsto> 1, pkgD \<mapsto> 1]"
  by (rule ext)
     (simp add: mainGraph_def addDependency_def addPackage_def emptyGraph_def pkg_distinct)

lemma orphanGraph_graph: "graph orphanGraph = [(pkgA, [pkgB])]"
  by (simp add: orphanGraph_def addDependency_def addPackage_def emptyGraph_def insertDep_def)

lemma orphanGraph_inDegree: "inDegree orphanGraph = [pkgA \<mapsto> 0, pkgB \<mapsto> 1]"
  by (rule ext)
     (simp add: orphanGraph_def addDependency_def addPackage_def emptyGraph_def pkg_distinct)

section \<open>ImpactAnalyzer and ConflictDetector\<close>

lemma analyzeImpactLoop_set:
  "set (analyzeImpactLoop adj t) = {p. \<exists>deps. (p, deps) \<in> set adj \<and> t \<in> set deps}"
  by (induction adj t rule: analyzeImpactLoop.induct) auto

text \<open>
  C8. For every graph and every target \<open>t\<close>, \<open>analyzeImpact\<close> prints its header line and
  then one line for each package of a list whose elements are exactly the packages that
  have \<open>t\<close> in their own dependency set: the direct dependents, and no package that only
  reaches \<open>t\<close> through other packages.
\<close>

theorem analyzeImpact_direct_dependents:
  "analyzeImpact g t =
     (''Impact analysis for package: '' @ name t)
       # map (impactLine t) (analyzeImpactLoop (graph g) t)
   \<and> set (analyzeImpactLoop (graph g) t)
       = {p. \<exists>deps. (p, deps) \<in> set (graph g) \<and> t \<in> set deps}"
  by (simp add: analyzeImpact_def analyzeImpactLoop_set)

lemma detectConflictDeps_find:
  "detectConflictDeps pkg deps =
     map_option (conflictMessage pkg) (find (\<lambda>d. version pkg \<noteq> version d) deps)"
  by (induction deps) (simp_all add: resolveVersion_def)

lemma find_map_Pair:
  "find (\<lambda>(p, d). version p \<noteq> version d) (map (Pair pkg) deps) =
     map_option (Pair pkg) (find (\<lambda>d. version pkg \<noteq> version d) deps)"
  by (induction deps) simp_all

lemma find_app:
  "find P (xs @ ys) = (case find P xs of None \<Rightarrow> find P ys | Some x \<Rightarrow> Some x)"
  by (induction xs) simp_all

lemma detectConflictLoop_find:
  "detectConflictLoop adj =
     (case find (\<lambda>(p, d). version p \<noteq> version d) (edgeList adj) of
        None \<Rightarrow> ([], False)
      | Some (p, d) \<Rightarrow> ([conflictMessage p d], True))"
proof (induction adj rule: detectConflictLoop.induct)
  case 1
  show ?case by (simp add: edgeList_def)
next
  case (2 pkg deps rest)
  have e: "edgeList ((pkg, deps) # rest) = map (Pair pkg) deps @ edgeList rest"
    by (simp add: edgeList_def)
  show ?case
  proof (cases "find (\<lambda>d. version pkg \<noteq> version d) deps")
    case None
    then show ?thesis
      using 2 by (simp add: e find_app find_map_Pair detectConflictDeps_find)
  next
    case (Some d)
    then show ?thesis
      by (simp add: e find_app find_map_Pair detectConflictDeps_find)
  qed
qed

lemma find_None_iff_edges:
  "(find P xs = None) = (\<not> (\<exists>x. x \<in> set xs \<and> P x))"
  by (induction xs) auto

text \<open>
  C9. \<open>detectConflict\<close> returns true exactly when some (package, dependency) pair has two
  different version strings. It stops at the first such pair of the iteration, printing
  the one line for that pair, and returns false, printing nothing, only when the whole
  edge list has no such pair.
\<close>

theorem detectConflict_first_differing_pair:
  "detectConflict g =
     (case find (\<lambda>(p, d). version p \<noteq> version d) (edgeList (graph g)) of
        None \<Rightarrow> ([], False)
      | Some (p, d) \<Rightarrow> ([conflictMessage p d], True))
   \<and> (snd (detectConflict g) = (\<exists>p d. (p, d) \<in> edges g \<and> version p \<noteq> version d))"
proof -
  have a: "detectConflict g =
     (case find (\<lambda>(p, d). version p \<noteq> version d) (edgeList (graph g)) of
        None \<Rightarrow> ([], False)
      | Some (p, d) \<Rightarrow> ([conflictMessage p d], True))"
    by (simp add: detectConflict_def detectConflictLoop_find)
  have "snd (detectConflict g) =
          (find (\<lambda>(p, d). version p \<noteq> version d) (edgeList (graph g)) \<noteq> None)"
    by (simp add: a split: option.splits)
  also have "\<dots> = (\<exists>p d. (p, d) \<in> edges g \<and> version p \<noteq> version d)"
    by (simp add: find_None_iff_edges edges_def)
  finally show ?thesis using a by simp
qed

section \<open>Correctness of the depth-first search\<close>

lemma edges_mem: "((p, d) \<in> edges g) = (\<exists>ds. (p, ds) \<in> set (graph g) \<and> d \<in> set ds)"
  by (auto simp: edges_def edgeList_def)

lemma edges_source_key: "(p, d) \<in> edges g \<Longrightarrow> p \<in> keys g"
  by (force simp: edges_mem keys_def)

lemma edges_target: "(p, d) \<in> edges g \<Longrightarrow> d \<in> targets g"
  by (force simp: edges_mem targets_def)

lemma getDependencies_edge:
  "getDependencies g p = Inr deps \<Longrightarrow> d \<in> set deps \<Longrightarrow> (p, d) \<in> edges g"
  by (auto simp: getDependencies_def edges_mem split: option.splits dest: map_of_SomeD)

lemma edge_getDependencies:
  "distinct (map fst (graph g)) \<Longrightarrow> getDependencies g p = Inr deps \<Longrightarrow>
     (p, d) \<in> edges g \<Longrightarrow> d \<in> set deps"
  by (auto simp: getDependencies_def edges_mem split: option.splits)

lemma key_getDependencies: "p \<in> keys g \<Longrightarrow> \<exists>deps. getDependencies g p = Inr deps"
  by (cases "map_of (graph g) p") (auto simp: getDependencies_def keys_def map_of_eq_None_iff)

lemma targetsRegistered_iff: "targetsRegistered g = (targets g \<subseteq> keys g)"
  by (auto simp: targetsRegistered_def targets_def keys_def packageExists_def list_all_iff
      map_of_eq_None_iff)

lemma closed_reach:
  assumes "(v, x) \<in> E\<^sup>*" "v \<in> F" "\<And>a b. a \<in> F \<Longrightarrow> (a, b) \<in> E \<Longrightarrow> b \<in> F"
  shows "x \<in> F"
  using assms by (induction rule: rtrancl_induct) auto

lemma dfsPost_simps:
  "dfsPost g st D (Inl e) = (\<exists>x. x \<notin> keys g \<and> (x \<in> D \<or> x \<in> targets g))"
  "dfsPost g st D (Inr (True, st')) = (\<not> acyclic (edges g))"
  "dfsPost g st D (Inr (False, st')) =
     (dfsInv g st' \<and> snd st' = snd st \<and> fst st \<subseteq> fst st' \<and> D \<subseteq> fst st' - snd st')"
  by (simp_all add: dfsPost_def)


lemma dfsInvI:
  assumes "rs \<subseteq> vis" "vis \<subseteq> keys g"
    "\<And>v w. v \<in> vis \<Longrightarrow> v \<notin> rs \<Longrightarrow> (v, w) \<in> edges g \<Longrightarrow> w \<in> vis \<and> w \<notin> rs"
    "\<And>v. v \<in> vis \<Longrightarrow> v \<notin> rs \<Longrightarrow> (v, v) \<notin> (edges g)\<^sup>+"
  shows "dfsInv g (vis, rs)"
  unfolding dfsInv_def fst_conv snd_conv Diff_iff using assms by blast

lemma dfsInvD:
  assumes "dfsInv g (vis, rs)"
  shows "rs \<subseteq> vis" "vis \<subseteq> keys g"
    "\<And>v w. v \<in> vis \<Longrightarrow> v \<notin> rs \<Longrightarrow> (v, w) \<in> edges g \<Longrightarrow> w \<in> vis \<and> w \<notin> rs"
    "\<And>v. v \<in> vis \<Longrightarrow> v \<notin> rs \<Longrightarrow> (v, v) \<notin> (edges g)\<^sup>+"
  using assms unfolding dfsInv_def fst_conv snd_conv Diff_iff by blast+


lemma dfsInv_push:
  assumes inv: "dfsInv g (vis, rs)" and k: "pkg \<in> keys g" and nv: "pkg \<notin> vis"
  shows "dfsInv g (insert pkg vis, insert pkg rs)"
proof (rule dfsInvI)
  note d = dfsInvD[OF inv]
  show "insert pkg rs \<subseteq> insert pkg vis" using d(1) by blast
  show "insert pkg vis \<subseteq> keys g" using d(2) k by blast
  show "w \<in> insert pkg vis \<and> w \<notin> insert pkg rs"
    if "v \<in> insert pkg vis" "v \<notin> insert pkg rs" "(v, w) \<in> edges g" for v w
  proof -
    from that have v: "v \<in> vis" "v \<notin> rs" by auto
    from d(3)[OF v that(3)] have "w \<in> vis" "w \<notin> rs" by auto
    with nv show ?thesis by auto
  qed
  show "(v, v) \<notin> (edges g)\<^sup>+" if "v \<in> insert pkg vis" "v \<notin> insert pkg rs" for v
  proof -
    from that have v: "v \<in> vis" "v \<notin> rs" by auto
    then show ?thesis by (rule d(4))
  qed
qed

lemma dfsInv_pop:
  assumes inv: "dfsInv g (vis2, insert pkg rs)"
    and pv: "pkg \<in> vis2"
    and succ: "\<And>w. (pkg, w) \<in> edges g \<Longrightarrow> w \<in> vis2 \<and> w \<notin> insert pkg rs"
  shows "dfsInv g (vis2, rs)"
proof (rule dfsInvI)
  note d = dfsInvD[OF inv]
  let ?F2 = "{v. v \<in> vis2 \<and> v \<notin> insert pkg rs}"
  have cl2: "b \<in> ?F2" if "a \<in> ?F2" "(a, b) \<in> edges g" for a b
    using d(3)[of a b] that by simp
  show "rs \<subseteq> vis2" using d(1) by blast
  show "vis2 \<subseteq> keys g" by (rule d(2))
  show "w \<in> vis2 \<and> w \<notin> rs" if "v \<in> vis2" "v \<notin> rs" "(v, w) \<in> edges g" for v w
  proof (cases "v = pkg")
    case True
    with that succ[of w] show ?thesis by simp
  next
    case False
    with that d(3)[of v w] show ?thesis by simp
  qed
  show "(v, v) \<notin> (edges g)\<^sup>+" if "v \<in> vis2" "v \<notin> rs" for v
  proof (cases "v = pkg")
    case True
    show ?thesis
    proof
      assume "(v, v) \<in> (edges g)\<^sup>+"
      then obtain w where w: "(pkg, w) \<in> edges g" "(w, pkg) \<in> (edges g)\<^sup>*"
        using True by (auto dest: tranclD)
      from succ[OF w(1)] have "w \<in> ?F2" by simp
      from closed_reach[OF w(2) this cl2] have "pkg \<in> ?F2" .
      then show False by simp
    qed
  next
    case False
    with that d(4)[of v] show ?thesis by simp
  qed
qed

lemma dfs_correct:
  "distinct (map fst (graph g)) \<Longrightarrow> dfsInv g st \<Longrightarrow>
     (\<forall>r\<in>snd st. (r, pkg) \<in> (edges g)\<^sup>+) \<Longrightarrow>
     dfsPost g st {pkg} (detectCycleUtil g pkg st)"
  "distinct (map fst (graph g)) \<Longrightarrow> dfsInv g st \<Longrightarrow>
     (\<forall>d\<in>set deps. \<forall>r\<in>snd st. (r, d) \<in> (edges g)\<^sup>+) \<Longrightarrow>
     dfsPost g st (set deps) (detectCycleUtilDeps g deps st)"
proof (induction g pkg st and g deps st rule: detectCycleUtil_detectCycleUtilDeps.induct)
  case (1 g pkg visited recStack)
  note dist = "1.prems"(1) and inv = "1.prems"(2) and reach = "1.prems"(3)
  show ?case
  proof (cases "pkg \<in> recStack")
    case True
    with reach have "(pkg, pkg) \<in> (edges g)\<^sup>+" by simp
    then have "\<not> acyclic (edges g)" by (auto simp: acyclic_def)
    moreover have "detectCycleUtil g pkg (visited, recStack) = Inr (True, visited, recStack)"
      using True by (simp add: detectCycleUtil.simps)
    ultimately show ?thesis by (simp add: dfsPost_simps)
  next
    case nr: False
    show ?thesis
    proof (cases "pkg \<in> visited")
      case True
      have "detectCycleUtil g pkg (visited, recStack) = Inr (False, visited, recStack)"
        using True nr by (simp add: detectCycleUtil.simps)
      moreover have "dfsPost g (visited, recStack) {pkg} (Inr (False, visited, recStack))"
        using True nr inv by (simp add: dfsPost_simps)
      ultimately show ?thesis by (simp only:)
    next
      case nv: False
      show ?thesis
      proof (cases "getDependencies g pkg")
        case (Inl e)
        then have "pkg \<notin> keys g" using key_getDependencies[of pkg g] by auto
        moreover have "detectCycleUtil g pkg (visited, recStack) = Inl e"
          using Inl nr nv by (simp add: detectCycleUtil.simps)
        ultimately show ?thesis by (auto simp: dfsPost_simps)
      next
        case (Inr deps)
        let ?st1 = "(insert pkg visited, insert pkg recStack)"
        have k: "pkg \<in> keys g" using Inr by (rule getDependencies_key)
        have inv1: "dfsInv g ?st1" using inv k nv by (rule dfsInv_push)
        have reach1: "\<forall>d\<in>set deps. \<forall>r\<in>snd ?st1. (r, d) \<in> (edges g)\<^sup>+"
        proof (intro ballI)
          fix d r assume d: "d \<in> set deps" and r: "r \<in> snd ?st1"
          have e: "(pkg, d) \<in> edges g" using Inr d by (rule getDependencies_edge)
          show "(r, d) \<in> (edges g)\<^sup>+"
          proof (cases "r = pkg")
            case True
            with e show ?thesis by auto
          next
            case False
            with r reach have "(r, pkg) \<in> (edges g)\<^sup>+" by simp
            then show ?thesis using e by (rule trancl_into_trancl)
          qed
        qed
        have post: "dfsPost g ?st1 (set deps) (detectCycleUtilDeps g deps ?st1)"
          using "1.IH"[OF nr nv Inr dist inv1 reach1] .
        show ?thesis
        proof (cases "detectCycleUtilDeps g deps ?st1")
          case l: (Inl e)
          with post obtain x where "x \<notin> keys g" "x \<in> set deps \<or> x \<in> targets g"
            by (auto simp: dfsPost_simps)
          with getDependencies_targets[OF Inr] have "\<exists>x. x \<notin> keys g \<and> x \<in> targets g" by auto
          moreover have "detectCycleUtil g pkg (visited, recStack) = Inl e"
            using l nr nv Inr by (simp add: detectCycleUtil.simps)
          ultimately show ?thesis by (auto simp: dfsPost_simps)
        next
          case r: (Inr res)
          obtain b vis2 rs2 where res: "res = (b, vis2, rs2)" by (cases res) auto
          show ?thesis
          proof (cases b)
            case True
            with post r res have "\<not> acyclic (edges g)" by (simp add: dfsPost_simps)
            moreover have "detectCycleUtil g pkg (visited, recStack) = Inr (True, vis2, rs2)"
              using True r res nr nv Inr by (simp add: detectCycleUtil.simps)
            ultimately show ?thesis by (simp add: dfsPost_simps)
          next
            case False
            from post have "dfsPost g ?st1 (set deps) (Inr (False, vis2, rs2))"
              using r res False by simp
            then have "dfsInv g (vis2, rs2) \<and> rs2 = insert pkg recStack
                \<and> insert pkg visited \<subseteq> vis2 \<and> set deps \<subseteq> vis2 - rs2"
              by (auto simp: dfsPost_simps)
            then have inv2: "dfsInv g (vis2, rs2)" and rs2: "rs2 = insert pkg recStack"
              and mono: "insert pkg visited \<subseteq> vis2" and dn: "set deps \<subseteq> vis2 - rs2"
              by blast+
            have succ: "w \<in> vis2 \<and> w \<notin> insert pkg recStack" if "(pkg, w) \<in> edges g" for w
              using edge_getDependencies[OF dist Inr that] dn rs2 by auto
            have pv: "pkg \<in> vis2" using mono by auto
            have inv3: "dfsInv g (vis2, recStack)"
              using inv2[unfolded rs2] pv succ by (rule dfsInv_pop)
            have "rs2 - {pkg} = recStack" using rs2 nr by auto
            then have "detectCycleUtil g pkg (visited, recStack) = Inr (False, vis2, recStack)"
              using False r res nr nv Inr by (simp add: detectCycleUtil.simps)
            moreover have "dfsPost g (visited, recStack) {pkg} (Inr (False, vis2, recStack))"
              using inv3 mono nr by (simp add: dfsPost_simps)
            ultimately show ?thesis by (simp only:)
          qed
        qed
      qed
    qed
  qed
next
  case (2 g st)
  then show ?case by (simp add: dfsPost_simps)
next
  case (3 g dep deps st)
  note dist = "3.prems"(1) and inv = "3.prems"(2) and reach = "3.prems"(3)
  have post1: "dfsPost g st {dep} (detectCycleUtil g dep st)"
    using "3.IH"(1)[OF dist inv] reach by simp
  show ?case
  proof (cases "detectCycleUtil g dep st")
    case (Inl e)
    then have "detectCycleUtilDeps g (dep # deps) st = Inl e" by simp
    moreover have "dfsPost g st (set (dep # deps)) (Inl e)"
      using post1 Inl by (auto simp: dfsPost_simps)
    ultimately show ?thesis by (simp only:)
  next
    case (Inr res)
    obtain b st1 where res: "res = (b, st1)" by (cases res) auto
    show ?thesis
    proof (cases b)
      case True
      then have "detectCycleUtilDeps g (dep # deps) st = Inr (True, st1)"
        using Inr res by simp
      moreover have "dfsPost g st (set (dep # deps)) (Inr (True, st1))"
        using post1 Inr res True by (simp add: dfsPost_simps)
      ultimately show ?thesis by (simp only:)
    next
      case False
      from post1 have "dfsPost g st {dep} (Inr (False, st1))"
        using Inr res False by simp
      then have "dfsInv g st1 \<and> snd st1 = snd st
          \<and> fst st \<subseteq> fst st1 \<and> dep \<in> fst st1 - snd st1"
        by (auto simp: dfsPost_simps)
      then have inv1: "dfsInv g st1" and rs1: "snd st1 = snd st"
        and mono1: "fst st \<subseteq> fst st1" and d1: "dep \<in> fst st1 - snd st1"
        by blast+
      have reach1: "\<forall>d\<in>set deps. \<forall>r\<in>snd st1. (r, d) \<in> (edges g)\<^sup>+"
        using reach rs1 by simp
      have post2: "dfsPost g st1 (set deps) (detectCycleUtilDeps g deps st1)"
        using "3.IH"(2)[OF Inr res[symmetric] _ dist inv1 reach1] False by simp
      have val: "detectCycleUtilDeps g (dep # deps) st = detectCycleUtilDeps g deps st1"
        using Inr res False by simp
      show ?thesis
      proof (cases "detectCycleUtilDeps g deps st1")
        case l: (Inl e)
        with post2 show ?thesis unfolding val by (auto simp: dfsPost_simps)
      next
        case r: (Inr res2)
        obtain b2 st2 where res2: "res2 = (b2, st2)" by (cases res2) auto
        show ?thesis
        proof (cases b2)
          case True
          with post2 r res2 show ?thesis unfolding val by (simp add: dfsPost_simps)
        next
          case f2: False
          from post2 have "dfsPost g st1 (set deps) (Inr (False, st2))"
            using r res2 f2 by simp
          then have "dfsInv g st2 \<and> snd st2 = snd st1 \<and> fst st1 \<subseteq> fst st2
            \<and> set deps \<subseteq> fst st2 - snd st2"
            by (auto simp: dfsPost_simps)
          with rs1 mono1 d1 have "dfsInv g st2 \<and> snd st2 = snd st \<and> fst st \<subseteq> fst st2
              \<and> set (dep # deps) \<subseteq> fst st2 - snd st2"
            by auto
          with f2 r res2 show ?thesis unfolding val by (auto simp: dfsPost_simps)
        qed
      qed
    qed
  qed
qed


lemma detectCycleLoop_correct:
  "distinct (map fst (graph g)) \<Longrightarrow> dfsInv g (vis, {}) \<Longrightarrow> fst ` set rest \<subseteq> keys g \<Longrightarrow>
     (case detectCycleLoop g rest (vis, {}) of
        Inl e \<Rightarrow> \<not> targets g \<subseteq> keys g
      | Inr b \<Rightarrow> if b then \<not> acyclic (edges g)
                else \<exists>vis'. dfsInv g (vis', {}) \<and> vis \<subseteq> vis' \<and> fst ` set rest \<subseteq> vis')"
proof (induction rest arbitrary: vis)
  case Nil
  then show ?case by auto
next
  case (Cons a rest)
  obtain pkg deps where a: "a = (pkg, deps)" by (cases a) auto
  have k: "pkg \<in> keys g" using Cons.prems(3) a by simp
  have post: "dfsPost g (vis, {}) {pkg} (detectCycleUtil g pkg (vis, {}))"
    using dfs_correct(1)[OF Cons.prems(1,2), of pkg] by simp
  show ?case
  proof (cases "detectCycleUtil g pkg (vis, {})")
    case (Inl e)
    with post k have "\<not> targets g \<subseteq> keys g" by (auto simp: dfsPost_simps)
    with Inl a show ?thesis by simp
  next
    case (Inr res)
    obtain b st1 where res: "res = (b, st1)" by (cases res) auto
    show ?thesis
    proof (cases b)
      case True
      with post Inr res have "\<not> acyclic (edges g)" by (simp add: dfsPost_simps)
      with True Inr res a show ?thesis by simp
    next
      case False
      from post have "dfsPost g (vis, {}) {pkg} (Inr (False, st1))"
        using Inr res False by simp
      then have "dfsInv g st1 \<and> snd st1 = {} \<and> vis \<subseteq> fst st1 \<and> pkg \<in> fst st1"
        by (auto simp: dfsPost_simps)
      then obtain vis1 where st1: "st1 = (vis1, {})" and inv1: "dfsInv g (vis1, {})"
        and p1: "pkg \<in> vis1" and m1: "vis \<subseteq> vis1"
        by (cases st1) auto
      have val: "detectCycleLoop g (a # rest) (vis, {}) = detectCycleLoop g rest (vis1, {})"
        using Inr res False a st1 by simp
      have IH: "case detectCycleLoop g rest (vis1, {}) of
        Inl e \<Rightarrow> \<not> targets g \<subseteq> keys g
      | Inr b \<Rightarrow> if b then \<not> acyclic (edges g)
                else \<exists>vis'. dfsInv g (vis', {}) \<and> vis1 \<subseteq> vis' \<and> fst ` set rest \<subseteq> vis'"
        using Cons.IH[OF Cons.prems(1) inv1] Cons.prems(3) by simp
      show ?thesis
      proof (cases "detectCycleLoop g rest (vis1, {})")
        case l: (Inl e)
        with IH show ?thesis unfolding val by simp
      next
        case r: (Inr b2)
        show ?thesis
        proof (cases b2)
          case True
          with IH r show ?thesis unfolding val by simp
        next
          case f2: False
          with IH r obtain vis' where v: "dfsInv g (vis', {})" "vis1 \<subseteq> vis'"
            "fst ` set rest \<subseteq> vis'"
            by auto
          then have "dfsInv g (vis', {}) \<and> vis \<subseteq> vis' \<and> fst ` set (a # rest) \<subseteq> vis'"
            using p1 m1 a by auto
          then show ?thesis unfolding val using r f2 by auto
        qed
      qed
    qed
  qed
qed


lemma dfsInv_empty: "dfsInv g ({}, {})"
  by (rule dfsInvI) auto

lemma trancl_source_key: "(x, y) \<in> (edges g)\<^sup>+ \<Longrightarrow> x \<in> keys g"
  by (auto dest!: tranclD edges_source_key)

lemma target_has_edge: "d \<in> targets g \<Longrightarrow> \<exists>p. (p, d) \<in> edges g"
  by (force simp: targets_def edges_mem)

lemma dfsInv_all_keys:
  assumes "dfsInv g (vis, {})" "keys g \<subseteq> vis"
  shows "acyclic (edges g) \<and> targets g \<subseteq> keys g"
proof
  note d = dfsInvD[OF assms(1)]
  show "acyclic (edges g)"
    unfolding acyclic_def
  proof (intro allI notI)
    fix x assume c: "(x, x) \<in> (edges g)\<^sup>+"
    then have "x \<in> vis" using trancl_source_key assms(2) by blast
    with d(4)[of x] c show False by simp
  qed
  show "targets g \<subseteq> keys g"
  proof
    fix t assume "t \<in> targets g"
    then obtain p where e: "(p, t) \<in> edges g" using target_has_edge by blast
    then have "p \<in> vis" using edges_source_key assms(2) by blast
    with d(3)[of p t] e have "t \<in> vis" by simp
    with d(2) show "t \<in> keys g" by blast
  qed
qed

lemma detectCycle_outcomes:
  assumes dist: "distinct (map fst (graph g))"
  shows "(detectCycle g = Inr False) = (acyclic (edges g) \<and> targetsRegistered g)"
    and "detectCycle g = Inr True \<Longrightarrow> \<not> acyclic (edges g)"
    and "detectCycle g = Inl e \<Longrightarrow> \<not> targetsRegistered g"
proof -
  have c: "case detectCycleLoop g (graph g) ({}, {}) of
        Inl e \<Rightarrow> \<not> targets g \<subseteq> keys g
      | Inr b \<Rightarrow> if b then \<not> acyclic (edges g)
                else \<exists>vis'. dfsInv g (vis', {}) \<and> {} \<subseteq> vis' \<and> fst ` set (graph g) \<subseteq> vis'"
    using detectCycleLoop_correct[OF dist dfsInv_empty, of "graph g"] by (simp add: keys_def)
  show t: "detectCycle g = Inr True \<Longrightarrow> \<not> acyclic (edges g)"
    using c by (simp add: detectCycle_def)
  have l: "\<not> targetsRegistered g" if "detectCycle g = Inl e'" for e'
    using c that by (simp add: detectCycle_def targetsRegistered_iff)
  show "detectCycle g = Inl e \<Longrightarrow> \<not> targetsRegistered g"
    by (rule l)
  have f: "acyclic (edges g) \<and> targetsRegistered g" if "detectCycle g = Inr False"
  proof -
    from c that obtain vis' where "dfsInv g (vis', {})" "keys g \<subseteq> vis'"
      by (auto simp: detectCycle_def keys_def)
    then show ?thesis using dfsInv_all_keys by (simp add: targetsRegistered_iff)
  qed
  show "(detectCycle g = Inr False) = (acyclic (edges g) \<and> targetsRegistered g)"
  proof
    assume "detectCycle g = Inr False" then show "acyclic (edges g) \<and> targetsRegistered g" by (rule f)
  next
    assume a: "acyclic (edges g) \<and> targetsRegistered g"
    show "detectCycle g = Inr False"
    proof (cases "detectCycle g")
      case (Inl e')
      with l[of e'] a show ?thesis by simp
    next
      case (Inr b)
      with t a show ?thesis by (cases b) auto
    qed
  qed
qed

lemma wellFormed_distinct_keys: "wellFormed g \<Longrightarrow> distinct (map fst (graph g))"
  by (simp add: wellFormed_def)

text \<open>
  C1. On a graph whose dependency targets all have an adjacency entry (and whose maps and
  sets hold each key once, as the containers guarantee), \<open>detectCycle\<close> returns, raising
  nothing: false when the edge relation is acyclic, true when the graph has a directed
  cycle.
\<close>

theorem detectCycle_decides_cycles:
  assumes "wellFormed g" "targetsRegistered g"
  shows "(acyclic (edges g) \<longrightarrow> detectCycle g = Inr False)
       \<and> (\<not> acyclic (edges g) \<longrightarrow> detectCycle g = Inr True)"
proof -
  note o = detectCycle_outcomes[OF wellFormed_distinct_keys[OF assms(1)]]
  show ?thesis
  proof (cases "detectCycle g")
    case (Inl e)
    with o(3)[of e] assms(2) show ?thesis by simp
  next
    case (Inr b)
    show ?thesis
    proof (cases b)
      case True
      with Inr o(2) show ?thesis by simp
    next
      case False
      with Inr o(1) show ?thesis by simp
    qed
  qed
qed

lemma mainGraph_edges:
  "edges mainGraph = {(pkgA, pkgB), (pkgA, pkgD), (pkgB, pkgC)}"
  by (auto simp: edges_def edgeList_def mainGraph_graph)

lemma acyclic_by_rank:
  assumes "\<And>a b. (a, b) \<in> r \<Longrightarrow> f a < (f b :: nat)"
  shows "acyclic r"
proof -
  have "r \<subseteq> measure f" using assms by auto
  then show ?thesis by (rule acyclic_subset[OF wf_acyclic[OF wf_measure]])
qed

lemma mainGraph_acyclic: "acyclic (edges mainGraph)"
proof (rule acyclic_by_rank)
  fix a b assume "(a, b) \<in> edges mainGraph"
  then show "(if a = pkgA then 0 else if a = pkgB then 1 else 2)
           < (if b = pkgA then 0 else if b = pkgB then 1 else (2::nat))"
    by (auto simp: mainGraph_edges pkg_distinct)
qed

lemma mainGraph_wellFormed: "wellFormed mainGraph"
  by (simp add: wellFormed_def mainGraph_graph pkg_distinct)

lemma mainGraph_targetsRegistered: "targetsRegistered mainGraph"
  by (simp add: targetsRegistered_def packageExists_def mainGraph_graph pkg_distinct)

lemma cycleGraph_graph:
  "graph cycleGraph = [(pkgA, [pkgB, pkgD]), (pkgB, [pkgC]), (pkgC, [pkgA]), (pkgD, [])]"
  by (simp add: cycleGraph_def addDependency_def mainGraph_graph insertDep_def pkg_distinct)

lemma cycleGraph_inDegree:
  "inDegree cycleGraph = [pkgA \<mapsto> 1, pkgB \<mapsto> 1, pkgC \<mapsto> 1, pkgD \<mapsto> 1]"
  by (rule ext) (simp add: cycleGraph_def addDependency_def mainGraph_inDegree pkg_distinct)

lemma cycleGraph_wellFormed: "wellFormed cycleGraph"
  by (simp add: wellFormed_def cycleGraph_graph pkg_distinct)

lemma cycleGraph_targetsRegistered: "targetsRegistered cycleGraph"
  by (simp add: targetsRegistered_def packageExists_def cycleGraph_graph pkg_distinct)

lemma cycleGraph_inDegreeFresh: "inDegreeFresh cycleGraph"
  by (simp add: inDegreeFresh_def dependentCount_def cycleGraph_graph cycleGraph_inDegree
      pkg_distinct)

lemma cycleGraph_detectCycle: "detectCycle cycleGraph = Inr True"
  by (simp add: detectCycle_def cycleGraph_graph getDependencies_def detectCycleUtil.simps
      pkg_distinct)

lemma mainGraph_detectCycle: "detectCycle mainGraph = Inr False"
  by (simp add: detectCycle_def mainGraph_graph getDependencies_def detectCycleUtil.simps
      pkg_distinct)

lemma cycleGraph_sort:
  "topologicalSort cycleGraph =
     Inr \<lparr>sortedPackages = [],
          printed = [''Cycle detected! Topological sort is not possible.''],
          graphAfter = cycleGraph\<rparr>"
  by (simp add: topologicalSort_def cycleGraph_graph cycleGraph_inDegree getInDegree_def
      sortReport_def pkg_distinct)

theorem detectCycle_decides_cycles_witness:
  "wellFormed mainGraph \<and> targetsRegistered mainGraph \<and> acyclic (edges mainGraph)
   \<and> detectCycle mainGraph = Inr False
   \<and> wellFormed cycleGraph \<and> targetsRegistered cycleGraph \<and> \<not> acyclic (edges cycleGraph)
   \<and> detectCycle cycleGraph = Inr True"
  using detectCycle_decides_cycles[OF mainGraph_wellFormed mainGraph_targetsRegistered]
    detectCycle_decides_cycles[OF cycleGraph_wellFormed cycleGraph_targetsRegistered]
    mainGraph_wellFormed mainGraph_targetsRegistered mainGraph_acyclic
    cycleGraph_wellFormed cycleGraph_targetsRegistered cycleGraph_detectCycle
  by auto

section \<open>Correctness of the sort\<close>

lemma same_graph:
  assumes "graph g' = graph g"
  shows "keys g' = keys g" "targets g' = targets g" "edges g' = edges g"
    "dependents g' = dependents g" "nodes g' = nodes g"
    "getDependencies g' = getDependencies g" "wellFormed g' = wellFormed g"
    "depsBefore g' = depsBefore g"
proof -
  show k: "keys g' = keys g" and t: "targets g' = targets g" and e: "edges g' = edges g"
    and "getDependencies g' = getDependencies g" and "wellFormed g' = wellFormed g"
    using assms by (simp_all add: keys_def targets_def edges_def getDependencies_def fun_eq_iff
        wellFormed_def)
  show d: "dependents g' = dependents g" using e by (simp add: dependents_def fun_eq_iff)
  show "nodes g' = nodes g" using k t by (simp add: nodes_def)
  have "depsBefore g' seen xs = depsBefore g seen xs" for seen xs
    by (induction xs arbitrary: seen) (simp_all add: d)
  then show "depsBefore g' = depsBefore g" by (simp add: fun_eq_iff)
qed

lemma finite_dependents: "finite (dependents g p)"
proof -
  have "dependents g p \<subseteq> keys g" by (auto simp: dependents_def dest: edges_source_key)
  moreover have "finite (keys g)" by (simp add: keys_def)
  ultimately show ?thesis by (rule finite_subset)
qed

lemma dependents_subset_keys: "dependents g p \<subseteq> keys g"
  by (auto simp: dependents_def dest: edges_source_key)

lemma relaxDependencies_result:
  "distinct deps \<Longrightarrow> (\<forall>d\<in>set deps. inDegree g d \<noteq> None) \<Longrightarrow>
     relaxDependencies deps g queue =
       Inr (g\<lparr>inDegree := (\<lambda>p. if p \<in> set deps then map_option (\<lambda>n. n - 1) (inDegree g p)
                                 else inDegree g p)\<rparr>,
            queue @ filter (\<lambda>d. inDegree g d = Some 1) deps)"
proof (induction deps arbitrary: g queue)
  case Nil
  show ?case by simp
next
  case (Cons dep deps)
  from Cons.prems obtain n where n: "inDegree g dep = Some n" by auto
  let ?g1 = "setInDegree g dep (n - 1)"
  let ?q1 = "if n - 1 = 0 then queue @ [dep] else queue"
  have nd: "dep \<notin> set deps" and dd: "distinct deps" using Cons.prems(1) by auto
  have def1: "\<forall>d\<in>set deps. inDegree ?g1 d \<noteq> None"
    using Cons.prems(2) by (simp add: setInDegree_def)
  have unfold: "relaxDependencies (dep # deps) g queue = relaxDependencies deps ?g1 ?q1"
    using n by (simp add: getInDegree_def setInDegree_def)
  have g: "?g1\<lparr>inDegree := (\<lambda>p. if p \<in> set deps then map_option (\<lambda>n. n - 1) (inDegree ?g1 p)
                                 else inDegree ?g1 p)\<rparr>
         = g\<lparr>inDegree := (\<lambda>p. if p \<in> set (dep # deps) then map_option (\<lambda>n. n - 1) (inDegree g p)
                                 else inDegree g p)\<rparr>"
    using n nd by (auto simp: setInDegree_def fun_eq_iff)
  have f: "filter (\<lambda>d. inDegree ?g1 d = Some 1) deps = filter (\<lambda>d. inDegree g d = Some 1) deps"
    using nd by (intro filter_cong) (auto simp: setInDegree_def)
  have q: "?q1 @ filter (\<lambda>d. inDegree ?g1 d = Some 1) deps
         = queue @ filter (\<lambda>d. inDegree g d = Some 1) (dep # deps)"
    using n unfolding f by auto
  show ?case
    unfolding unfold Cons.IH[OF dd def1] g q ..
qed

lemma depsBefore_append:
  "depsBefore g seen (xs @ ys) = (depsBefore g seen xs \<and> depsBefore g (seen \<union> set xs) ys)"
  by (induction xs arbitrary: seen) (auto simp: insert_commute Un_commute)

lemma depsBefore_all:
  "(\<And>d. d \<in> set ys \<Longrightarrow> dependents g d \<subseteq> S) \<Longrightarrow> depsBefore g S ys"
proof (induction ys arbitrary: S)
  case Nil
  show ?case by simp
next
  case (Cons y ys)
  have "depsBefore g (insert y S) ys"
    using Cons.prems by (intro Cons.IH) auto
  with Cons.prems show ?case by simp
qed

lemma wellFormed_deps_distinct:
  "wellFormed g \<Longrightarrow> getDependencies g pkg = Inr deps \<Longrightarrow> distinct deps"
  by (auto simp: wellFormed_def getDependencies_def list_all_iff split: option.splits
      dest!: map_of_SomeD)


lemma dependents_iff_deps:
  assumes "wellFormed g" "getDependencies g pkg = Inr deps"
  shows "(pkg \<in> dependents g d) = (d \<in> set deps)"
  using assms getDependencies_edge[OF assms(2), of d]
    edge_getDependencies[OF wellFormed_distinct_keys[OF assms(1)] assms(2), of d]
  by (auto simp: dependents_def)

lemma kahn_step:
  assumes wf: "wellFormed g" and inv: "kahnInv g (pkg # queue) srt"
    and deps: "getDependencies g pkg = Inr deps"
  shows "\<exists>g' queue'. relaxDependencies deps g queue = Inr (g', queue') \<and> graph g' = graph g
            \<and> kahnInv g' queue' (srt @ [pkg])"
proof -
  from inv have dist: "distinct (srt @ pkg # queue)" and sk: "set srt \<subseteq> keys g"
    and deg: "\<And>p. p \<in> nodes g \<Longrightarrow> inDegree g p = Some (int (card (dependents g p - set srt)))"
    and mem: "set (srt @ pkg # queue) = {p. p \<in> nodes g \<and> dependents g p \<subseteq> set srt}"
    and ord: "depsBefore g {} (srt @ pkg # queue)"
    unfolding kahnInv_def by blast+
  have dd: "distinct deps" using wf deps by (rule wellFormed_deps_distinct)
  have dn: "set deps \<subseteq> nodes g" using getDependencies_targets[OF deps] by (auto simp: nodes_def)
  have defd: "\<forall>d\<in>set deps. inDegree g d \<noteq> None" using deg dn by auto
  define g' where "g' = g\<lparr>inDegree := (\<lambda>p. if p \<in> set deps then map_option (\<lambda>n. n - 1) (inDegree g p)
                                 else inDegree g p)\<rparr>"
  define new where "new = filter (\<lambda>d. inDegree g d = Some 1) deps"
  have relax: "relaxDependencies deps g queue = Inr (g', queue @ new)"
    unfolding g'_def new_def using dd defd by (rule relaxDependencies_result)
  have gg: "graph g' = graph g" by (simp add: g'_def)
  have pns: "pkg \<notin> set srt" using dist by auto
  have pk: "pkg \<in> keys g" using deps by (rule getDependencies_key)
  note di = dependents_iff_deps[OF wf deps]
  have inD: "pkg \<in> dependents g d - set srt" if "d \<in> set deps" for d
    using that di pns by simp
  have diff_in: "dependents g d - set (srt @ [pkg]) = (dependents g d - set srt) - {pkg}" for d
    by auto
  have card_in: "int (card (dependents g d - set (srt @ [pkg])))
                  = int (card (dependents g d - set srt)) - 1" if "d \<in> set deps" for d
  proof -
    have fin: "finite (dependents g d - set srt)" using finite_dependents by simp
    have "card (dependents g d - set srt) > 0"
      using inD[OF that] fin by (auto simp: card_gt_0_iff)
    moreover have "card ((dependents g d - set srt) - {pkg}) = card (dependents g d - set srt) - 1"
      using inD[OF that] fin by (simp add: card_Diff_singleton)
    ultimately show ?thesis unfolding diff_in by simp
  qed
  have diff_out: "dependents g d - set (srt @ [pkg]) = dependents g d - set srt"
    if "d \<notin> set deps" for d
    using that di[of d] by auto
  have deg': "inDegree g' p = Some (int (card (dependents g p - set (srt @ [pkg]))))"
    if "p \<in> nodes g" for p
  proof (cases "p \<in> set deps")
    case True
    then show ?thesis using deg[OF that] card_in[OF True] by (simp add: g'_def)
  next
    case False
    then show ?thesis using deg[OF that] diff_out[OF False] by (simp add: g'_def)
  qed
  have new_char: "(inDegree g d = Some 1) = (dependents g d \<subseteq> set (srt @ [pkg]))"
    if "d \<in> set deps" for d
  proof -
    let ?D = "dependents g d - set srt"
    have fin: "finite ?D" using finite_dependents by simp
    have p: "pkg \<in> ?D" using inD[OF that] .
    have "d \<in> nodes g" using that dn by auto
    then have "(inDegree g d = Some 1) = (card ?D = 1)" using deg[of d] by simp
    also have "\<dots> = (?D = {pkg})"
    proof
      assume "card ?D = 1"
      then obtain x where "?D = {x}" by (auto simp: card_1_singleton_iff)
      with p show "?D = {pkg}" by auto
    next
      assume "?D = {pkg}" then show "card ?D = 1" by simp
    qed
    also have "\<dots> = (dependents g d \<subseteq> set (srt @ [pkg]))" using p by auto
    finally show ?thesis .
  qed
  have set_new: "set new = {d. d \<in> set deps \<and> dependents g d \<subseteq> set (srt @ [pkg])}"
    unfolding new_def using new_char by auto
  have mem': "set ((srt @ [pkg]) @ queue @ new)
                = {p. p \<in> nodes g \<and> dependents g p \<subseteq> set (srt @ [pkg])}" (is "?L = ?R")
  proof (intro set_eqI iffI)
    fix x assume "x \<in> ?L"
    then consider "x \<in> set (srt @ pkg # queue)" | "x \<in> set new" by auto
    then show "x \<in> ?R"
    proof cases
      case 1
      then have "x \<in> nodes g \<and> dependents g x \<subseteq> set srt" unfolding mem by simp
      then show ?thesis by auto
    next
      case 2
      then show ?thesis using set_new dn by auto
    qed
  next
    fix x assume "x \<in> ?R"
    then have xn: "x \<in> nodes g" and xs: "dependents g x \<subseteq> set (srt @ [pkg])" by auto
    show "x \<in> ?L"
    proof (cases "x \<in> set deps")
      case True
      with xs have "x \<in> set new" using set_new by simp
      then show ?thesis by simp
    next
      case False
      then have "pkg \<notin> dependents g x" using di[of x] by simp
      with xs have "dependents g x \<subseteq> set srt" by auto
      with xn have "x \<in> set (srt @ pkg # queue)" unfolding mem by simp
      then show ?thesis by auto
    qed
  qed
  have new_fresh: "d \<notin> set (srt @ pkg # queue)" if "d \<in> set new" for d
  proof
    assume "d \<in> set (srt @ pkg # queue)"
    then have "dependents g d \<subseteq> set srt" unfolding mem by simp
    moreover have "d \<in> set deps" using that set_new by simp
    ultimately show False using inD[of d] by auto
  qed
  have "distinct new" unfolding new_def using dd by simp
  then have dist': "distinct ((srt @ [pkg]) @ queue @ new)"
    using dist new_fresh by auto
  have "depsBefore g (set (srt @ pkg # queue)) new"
  proof (rule depsBefore_all)
    fix d assume "d \<in> set new"
    then have "dependents g d \<subseteq> set (srt @ [pkg])" using set_new by simp
    then show "dependents g d \<subseteq> set (srt @ pkg # queue)" by auto
  qed
  then have "depsBefore g {} ((srt @ pkg # queue) @ new)"
    using ord by (simp only: depsBefore_append Un_empty_left simp_thms)
  then have ord': "depsBefore g {} ((srt @ [pkg]) @ queue @ new)" by simp
  have sk': "set (srt @ [pkg]) \<subseteq> keys g" using sk pk by simp
  have "kahnInv g' (queue @ new) (srt @ [pkg])"
    unfolding kahnInv_def same_graph[OF gg]
    using dist' sk' deg' mem' ord' by blast
  with relax gg show ?thesis by blast
qed


lemma kahnLoop_step_eq:
  assumes "getDependencies g pkg = Inr deps" "relaxDependencies deps g queue = Inr (g1, q1)"
  shows "kahnLoop g (pkg # queue) srt = kahnLoop g1 q1 (srt @ [pkg])"
  using assms by simp

lemma kahnLoop_inv:
  "wellFormed g \<Longrightarrow> kahnInv g queue srt \<Longrightarrow> kahnLoop g queue srt = Inr (res, g') \<Longrightarrow>
     kahnInv g' [] res \<and> graph g' = graph g"
proof (induction g queue srt rule: kahnLoop.induct)
  case (1 g srt)
  then show ?case by simp
next
  case (2 g pkg queue srt)
  from "2.prems"(3) obtain deps where deps: "getDependencies g pkg = Inr deps"
    by (cases "getDependencies g pkg") auto
  from kahn_step[OF "2.prems"(1,2) deps] obtain g1 q1 where
    relax: "relaxDependencies deps g queue = Inr (g1, q1)" and gg: "graph g1 = graph g"
    and inv1: "kahnInv g1 q1 (srt @ [pkg])"
    by blast
  have wf1: "wellFormed g1" using "2.prems"(1) same_graph(7)[OF gg] by simp
  have run: "kahnLoop g1 q1 (srt @ [pkg]) = Inr (res, g')"
    using "2.prems"(3) kahnLoop_step_eq[OF deps relax] by simp
  from "2.IH"[OF deps relax refl wf1 inv1 run] gg show ?case by simp
qed

lemma kahnLoop_total:
  "wellFormed g \<Longrightarrow> kahnInv g queue srt \<Longrightarrow> targets g \<subseteq> keys g \<Longrightarrow>
     \<exists>res g'. kahnLoop g queue srt = Inr (res, g')"
proof (induction g queue srt rule: kahnLoop.induct)
  case (1 g srt)
  then show ?case by simp
next
  case (2 g pkg queue srt)
  from "2.prems"(2) have "set (srt @ pkg # queue) = {p. p \<in> nodes g \<and> dependents g p \<subseteq> set srt}"
    unfolding kahnInv_def by blast
  then have "pkg \<in> nodes g" by auto
  with "2.prems"(3) have "pkg \<in> keys g" by (auto simp: nodes_def)
  then obtain deps where deps: "getDependencies g pkg = Inr deps"
    using key_getDependencies by blast
  from kahn_step[OF "2.prems"(1,2) deps] obtain g1 q1 where
    relax: "relaxDependencies deps g queue = Inr (g1, q1)" and gg: "graph g1 = graph g"
    and inv1: "kahnInv g1 q1 (srt @ [pkg])"
    by blast
  have wf1: "wellFormed g1" using "2.prems"(1) same_graph(7)[OF gg] by simp
  have cl1: "targets g1 \<subseteq> keys g1" using "2.prems"(3) same_graph(1,2)[OF gg] by simp
  from "2.IH"[OF deps relax refl wf1 inv1 cl1] kahnLoop_step_eq[OF deps relax]
  show ?case by simp
qed

lemma finite_edges: "finite (edges g)"
  by (simp add: edges_def)

lemma kahn_final_acyclic:
  assumes inv: "kahnInv g [] res" and ac: "acyclic (edges g)"
  shows "nodes g \<subseteq> set res"
proof (rule ccontr)
  assume "\<not> nodes g \<subseteq> set res"
  then obtain x0 where x0: "x0 \<in> nodes g - set res" by auto
  have wf: "wf (edges g)" using finite_edges ac by (rule finite_acyclic_wf)
  from inv have mem: "set res = {p. p \<in> nodes g \<and> dependents g p \<subseteq> set res}"
    unfolding kahnInv_def by simp
  from wfE_min[OF wf x0] obtain z where z: "z \<in> nodes g - set res"
    and mn: "\<And>y. (y, z) \<in> edges g \<Longrightarrow> y \<notin> nodes g - set res"
    by blast
  have "dependents g z \<subseteq> set res"
  proof
    fix y assume "y \<in> dependents g z"
    then have e: "(y, z) \<in> edges g" by (simp add: dependents_def)
    then have "y \<in> nodes g" using edges_source_key by (auto simp: nodes_def)
    with mn[OF e] show "y \<in> set res" by simp
  qed
  with z have "z \<in> set res" using mem by blast
  with z show False by simp
qed

lemma kahn_final_subset:
  assumes wf: "wellFormed g" and inv: "kahnInv g [] res"
  shows "length res \<le> length (graph g)"
    and "length res = length (graph g) \<Longrightarrow> set res = keys g"
    and "keys g \<subseteq> set res \<Longrightarrow> length res = length (graph g)"
proof -
  from inv have dist: "distinct res" and sk: "set res \<subseteq> keys g"
    unfolding kahnInv_def by simp_all
  have ck: "card (keys g) = length (graph g)"
    using wellFormed_distinct_keys[OF wf] distinct_card[of "map fst (graph g)"]
    by (simp add: keys_def)
  have cr: "card (set res) = length res" using dist by (rule distinct_card)
  have fk: "finite (keys g)" by (simp add: keys_def)
  show "length res \<le> length (graph g)"
    using card_mono[OF fk sk] ck cr by simp
  show "set res = keys g" if "length res = length (graph g)"
    using card_subset_eq[OF fk sk] ck cr that by simp
  show "length res = length (graph g)" if "keys g \<subseteq> set res"
    using that sk ck cr by (simp add: subset_antisym)
qed


lemma precedes_mem: "precedes p d xs \<Longrightarrow> p \<in> set xs \<and> d \<in> set xs"
  by (induction xs) (auto split: if_splits)

lemma depsBefore_precedes:
  "depsBefore g seen xs \<Longrightarrow> d \<in> set xs \<Longrightarrow> p \<in> dependents g d \<Longrightarrow> p \<notin> seen \<Longrightarrow>
     precedes p d xs"
proof (induction xs arbitrary: seen)
  case Nil
  then show ?case by simp
next
  case (Cons x xs)
  from Cons.prems(1) have dx: "dependents g x \<subseteq> seen" and rest: "depsBefore g (insert x seen) xs"
    by simp_all
  have dne: "d \<noteq> x" using dx Cons.prems(3,4) by auto
  with Cons.prems(2) have dxs: "d \<in> set xs" by simp
  show ?case
  proof (cases "x = p")
    case True
    with dxs show ?thesis by simp
  next
    case False
    with Cons.prems(4) have "p \<notin> insert x seen" by simp
    from Cons.IH[OF rest dxs Cons.prems(3) this] False show ?thesis by simp
  qed
qed

lemma precedes_position:
  "distinct xs \<Longrightarrow> precedes p d xs \<Longrightarrow>
     length (takeWhile (\<lambda>x. x \<noteq> p) xs) < length (takeWhile (\<lambda>x. x \<noteq> d) xs)"
proof (induction xs)
  case Nil
  then show ?case by simp
next
  case (Cons x xs)
  show ?case
  proof (cases "x = p")
    case True
    with Cons.prems have "d \<in> set xs" "x \<notin> set xs" by auto
    then have "x \<noteq> d" by auto
    with True show ?thesis by simp
  next
    case False
    with Cons.prems have pr: "precedes p d xs" by simp
    then have "d \<in> set xs" by (simp add: precedes_mem)
    with Cons.prems(1) have "x \<noteq> d" by auto
    with False Cons.IH[OF _ pr] Cons.prems(1) show ?thesis by simp
  qed
qed

lemma kahn_final_order:
  assumes inv: "kahnInv g [] res" and e: "(p, d) \<in> edges g" and d: "d \<in> set res"
  shows "precedes p d res"
proof -
  from inv have "depsBefore g {} res" unfolding kahnInv_def by simp
  moreover have "p \<in> dependents g d" using e by (simp add: dependents_def)
  ultimately show ?thesis using d by (intro depsBefore_precedes[where seen = "{}"]) auto
qed

lemma kahn_final_full:
  assumes wf: "wellFormed g" and inv: "kahnInv g [] res" and full: "set res = keys g"
  shows "acyclic (edges g)" and "targets g \<subseteq> keys g"
proof -
  from inv have mem: "set res = {p. p \<in> nodes g \<and> dependents g p \<subseteq> set res}"
    and dist: "distinct res"
    unfolding kahnInv_def by simp_all
  show t: "targets g \<subseteq> keys g"
  proof
    fix t assume "t \<in> targets g"
    then have "t \<in> nodes g" by (simp add: nodes_def)
    moreover have "dependents g t \<subseteq> set res" using dependents_subset_keys full by simp
    ultimately have "t \<in> set res" using mem by blast
    then show "t \<in> keys g" using full by simp
  qed
  show "acyclic (edges g)"
  proof (rule acyclic_by_rank)
    fix a b assume ab: "(a, b) \<in> edges g"
    then have "b \<in> set res" using edges_target t full by blast
    with inv ab have "precedes a b res" by (rule kahn_final_order)
    with dist show "length (takeWhile (\<lambda>x. x \<noteq> a) res) < length (takeWhile (\<lambda>x. x \<noteq> b) res)"
      by (rule precedes_position)
  qed
qed

lemma seedQueue_result:
  "(\<forall>p\<in>fst ` set adj. inDegree g p \<noteq> None) \<Longrightarrow>
     seedQueue g adj queue = Inr (queue @ filter (\<lambda>p. inDegree g p = Some 0) (map fst adj))"
proof (induction adj arbitrary: queue)
  case Nil
  show ?case by simp
next
  case (Cons a adj)
  obtain pkg deps where a: "a = (pkg, deps)" by (cases a) auto
  from Cons.prems a obtain n where n: "inDegree g pkg = Some n" by auto
  have "\<forall>p\<in>fst ` set adj. inDegree g p \<noteq> None" using Cons.prems by simp
  from Cons.IH[OF this] a n show ?case by (simp add: getInDegree_def)
qed

lemma dependentCount_card:
  assumes "distinct (map fst (graph g))"
  shows "dependentCount g p = card (dependents g p)"
proof -
  let ?f = "filter (\<lambda>(q, ds). p \<in> set ds) (graph g)"
  have d: "distinct (map fst ?f)" using assms by (rule distinct_map_filter)
  have "dependents g p = set (map fst ?f)"
    by (force simp: dependents_def edges_mem)
  then have "card (dependents g p) = length (map fst ?f)"
    using distinct_card[OF d] by simp
  then show ?thesis by (simp add: dependentCount_def)
qed

lemma nodes_list: "nodes g = set (map fst (graph g) @ concat (map snd (graph g)))"
  by (simp add: nodes_def keys_def targets_def)

lemma fresh_degree:
  assumes "wellFormed g" "inDegreeFresh g" "p \<in> nodes g"
  shows "inDegree g p = Some (int (card (dependents g p)))"
proof -
  from assms(2,3) have "inDegree g p = Some (int (dependentCount g p))"
    unfolding inDegreeFresh_def nodes_list list_all_iff by blast
  then show ?thesis using dependentCount_card[OF wellFormed_distinct_keys[OF assms(1)]] by simp
qed

lemma kahnInv_init:
  assumes wf: "wellFormed g" and fr: "inDegreeFresh g"
  shows "kahnInv g (filter (\<lambda>p. inDegree g p = Some 0) (map fst (graph g))) []"
proof -
  let ?seeds = "filter (\<lambda>p. inDegree g p = Some 0) (map fst (graph g))"
  note deg = fresh_degree[OF wf fr]
  have zero: "(inDegree g p = Some 0) = (dependents g p = {})" if "p \<in> nodes g" for p
    using deg[OF that] finite_dependents[of g p] by simp
  have kn: "keys g \<subseteq> nodes g" by (simp add: nodes_def)
  have set_seeds: "set ?seeds = {p. p \<in> nodes g \<and> dependents g p \<subseteq> {}}"
  proof (intro set_eqI iffI)
    fix x assume "x \<in> set ?seeds"
    then have "x \<in> keys g" "inDegree g x = Some 0" by (auto simp: keys_def)
    then show "x \<in> {p. p \<in> nodes g \<and> dependents g p \<subseteq> {}}" using zero kn by auto
  next
    fix x assume "x \<in> {p. p \<in> nodes g \<and> dependents g p \<subseteq> {}}"
    then have xn: "x \<in> nodes g" and xe: "dependents g x = {}" by auto
    have "x \<notin> targets g"
    proof
      assume "x \<in> targets g"
      then obtain p where "(p, x) \<in> edges g" using target_has_edge by blast
      with xe show False by (auto simp: dependents_def)
    qed
    with xn have "x \<in> keys g" by (simp add: nodes_def)
    with xn xe zero show "x \<in> set ?seeds" by (auto simp: keys_def)
  qed
  have "distinct ?seeds" using wellFormed_distinct_keys[OF wf] by simp
  moreover have "depsBefore g {} ?seeds"
    using set_seeds by (intro depsBefore_all) auto
  ultimately show ?thesis
    unfolding kahnInv_def using deg set_seeds by simp
qed

lemma topologicalSort_run:
  assumes wf: "wellFormed g" and fr: "inDegreeFresh g"
  shows "topologicalSort g =
     (case kahnLoop g (filter (\<lambda>p. inDegree g p = Some 0) (map fst (graph g))) [] of
        Inl e \<Rightarrow> Inl e
      | Inr (order, g') \<Rightarrow>
          Inr \<lparr>sortedPackages = order, printed = sortReport g' order, graphAfter = g'\<rparr>)"
proof -
  have "\<forall>p\<in>fst ` set (graph g). inDegree g p \<noteq> None"
    using fresh_degree[OF wf fr] by (auto simp: nodes_def keys_def)
  from seedQueue_result[OF this, of "[]"] show ?thesis
    by (simp add: topologicalSort_def)
qed

lemma topologicalSort_inv:
  assumes wf: "wellFormed g" and fr: "inDegreeFresh g" and r: "topologicalSort g = Inr r"
  shows "kahnInv (graphAfter r) [] (sortedPackages r)" and "graph (graphAfter r) = graph g"
    and "printed r = sortReport g (sortedPackages r)"
proof -
  let ?seeds = "filter (\<lambda>p. inDegree g p = Some 0) (map fst (graph g))"
  from r obtain order g' where k: "kahnLoop g ?seeds [] = Inr (order, g')"
    and rr: "r = \<lparr>sortedPackages = order, printed = sortReport g' order, graphAfter = g'\<rparr>"
    unfolding topologicalSort_run[OF wf fr] by (auto split: sum.splits)
  from kahnLoop_inv[OF wf kahnInv_init[OF wf fr] k] rr
  show "kahnInv (graphAfter r) [] (sortedPackages r)" and "graph (graphAfter r) = graph g"
    and "printed r = sortReport g (sortedPackages r)"
    by (simp_all add: sortReport_def)
qed

lemma topologicalSort_total:
  assumes wf: "wellFormed g" and fr: "inDegreeFresh g" and cl: "targetsRegistered g"
  shows "\<exists>r. topologicalSort g = Inr r"
proof -
  from kahnLoop_total[OF wf kahnInv_init[OF wf fr]] cl obtain res g' where
    "kahnLoop g (filter (\<lambda>p. inDegree g p = Some 0) (map fst (graph g))) [] = Inr (res, g')"
    by (auto simp: targetsRegistered_iff)
  then show ?thesis unfolding topologicalSort_run[OF wf fr] by simp
qed


lemma relaxDependencies_queue:
  "relaxDependencies deps g queue = Inr (g', queue') \<Longrightarrow> \<exists>new. queue' = queue @ new"
proof (induction deps arbitrary: g queue)
  case Nil
  then show ?case by simp
next
  case (Cons dep deps)
  from Cons.prems obtain n where n: "inDegree g dep = Some n"
    by (auto simp: getInDegree_def split: option.splits)
  let ?g1 = "setInDegree g dep (n - 1)"
  let ?q1 = "if n - 1 = 0 then queue @ [dep] else queue"
  from Cons.prems n have "relaxDependencies deps ?g1 ?q1 = Inr (g', queue')"
    by (simp add: getInDegree_def setInDegree_def)
  from Cons.IH[OF this] obtain new where "queue' = ?q1 @ new" by blast
  then show ?case by (cases "n - 1 = 0") auto
qed

lemma kahnLoop_prefix:
  "kahnLoop g queue srt = Inr (res, g') \<Longrightarrow> \<exists>ys. res = srt @ queue @ ys"
proof (induction g queue srt rule: kahnLoop.induct)
  case (1 g srt)
  then show ?case by simp
next
  case (2 g pkg queue srt)
  from "2.prems" obtain deps where deps: "getDependencies g pkg = Inr deps"
    by (cases "getDependencies g pkg") auto
  from "2.prems" deps obtain g1 q1 where relax: "relaxDependencies deps g queue = Inr (g1, q1)"
    by (cases "relaxDependencies deps g queue") auto
  have run: "kahnLoop g1 q1 (srt @ [pkg]) = Inr (res, g')"
    using "2.prems" kahnLoop_step_eq[OF deps relax] by simp
  from "2.IH"[OF deps relax refl run] obtain ys where ys: "res = (srt @ [pkg]) @ q1 @ ys" by blast
  from relaxDependencies_queue[OF relax] obtain new where "q1 = queue @ new" by blast
  with ys show ?case by simp
qed

lemma kahnLoop_nonpositive:
  "wellFormed g \<Longrightarrow> set queue \<subseteq> keys g \<Longrightarrow>
     (\<forall>p\<in>targets g. \<exists>n. inDegree g p = Some n \<and> n \<le> 0) \<Longrightarrow>
     \<exists>g'. kahnLoop g queue srt = Inr (srt @ queue, g')"
proof (induction queue arbitrary: g srt)
  case Nil
  show ?case by simp
next
  case (Cons pkg queue)
  from Cons.prems(2) obtain deps where deps: "getDependencies g pkg = Inr deps"
    using key_getDependencies[of pkg g] by auto
  have dd: "distinct deps" using Cons.prems(1) deps by (rule wellFormed_deps_distinct)
  have dt: "set deps \<subseteq> targets g" using deps by (rule getDependencies_targets)
  have defd: "\<forall>d\<in>set deps. inDegree g d \<noteq> None" using Cons.prems(3) dt by fastforce
  define g1 where "g1 = g\<lparr>inDegree := (\<lambda>p. if p \<in> set deps then map_option (\<lambda>n. n - 1) (inDegree g p)
                                 else inDegree g p)\<rparr>"
  have "filter (\<lambda>d. inDegree g d = Some 1) deps = []"
    using Cons.prems(3) dt by (fastforce simp: filter_empty_conv)
  then have relax: "relaxDependencies deps g queue = Inr (g1, queue)"
    using relaxDependencies_result[OF dd defd, of queue] by (simp add: g1_def)
  have gg: "graph g1 = graph g" by (simp add: g1_def)
  have wf1: "wellFormed g1" using Cons.prems(1) same_graph(7)[OF gg] by simp
  have q1: "set queue \<subseteq> keys g1" using Cons.prems(2) same_graph(1)[OF gg] by simp
  have np1: "\<forall>p\<in>targets g1. \<exists>n. inDegree g1 p = Some n \<and> n \<le> 0"
  proof
    fix p assume "p \<in> targets g1"
    then have "p \<in> targets g" using same_graph(2)[OF gg] by simp
    with Cons.prems(3) obtain n where "inDegree g p = Some n" "n \<le> 0" by blast
    then show "\<exists>n. inDegree g1 p = Some n \<and> n \<le> 0" by (auto simp: g1_def)
  qed
  from Cons.IH[OF wf1 q1 np1, of "srt @ [pkg]"] kahnLoop_step_eq[OF deps relax, of srt]
  show ?case by simp
qed

lemma relaxDependencies_defined:
  "(\<forall>d\<in>set deps. inDegree g d \<noteq> None) \<Longrightarrow>
     \<exists>g' queue'. relaxDependencies deps g queue = Inr (g', queue') \<and> graph g' = graph g
        \<and> dom (inDegree g') = dom (inDegree g) \<and> set queue' \<subseteq> set queue \<union> set deps"
proof (induction deps arbitrary: g queue)
  case Nil
  show ?case by simp
next
  case (Cons dep deps)
  from Cons.prems obtain n where n: "inDegree g dep = Some n" by auto
  let ?g1 = "setInDegree g dep (n - 1)"
  let ?q1 = "if n - 1 = 0 then queue @ [dep] else queue"
  have unfold: "relaxDependencies (dep # deps) g queue = relaxDependencies deps ?g1 ?q1"
    using n by (simp add: getInDegree_def setInDegree_def)
  have d1: "dom (inDegree ?g1) = dom (inDegree g)" using n by (auto simp: setInDegree_def)
  have "\<forall>d\<in>set deps. inDegree ?g1 d \<noteq> None"
    using Cons.prems by (simp add: setInDegree_def)
  from Cons.IH[OF this, of ?q1] obtain g' queue' where
    r: "relaxDependencies deps ?g1 ?q1 = Inr (g', queue')" "graph g' = graph ?g1"
       "dom (inDegree g') = dom (inDegree ?g1)" "set queue' \<subseteq> set ?q1 \<union> set deps"
    by blast
  have "graph g' = graph g" using r(2) by (simp add: setInDegree_def)
  moreover have "set queue' \<subseteq> set queue \<union> set (dep # deps)"
    using r(4) by (auto split: if_splits)
  ultimately show ?case unfolding unfold using r(1,3) d1 by simp
qed

lemma kahnLoop_defined:
  "targets g \<subseteq> keys g \<Longrightarrow> set queue \<subseteq> keys g \<Longrightarrow> targets g \<subseteq> dom (inDegree g) \<Longrightarrow>
     \<exists>r. kahnLoop g queue srt = Inr r"
proof (induction g queue srt rule: kahnLoop.induct)
  case (1 g srt)
  show ?case by simp
next
  case (2 g pkg queue srt)
  from "2.prems"(2) obtain deps where deps: "getDependencies g pkg = Inr deps"
    using key_getDependencies[of pkg g] by auto
  have dt: "set deps \<subseteq> targets g" using deps by (rule getDependencies_targets)
  then have "\<forall>d\<in>set deps. inDegree g d \<noteq> None" using "2.prems"(3) by auto
  from relaxDependencies_defined[OF this, of queue] obtain g1 q1 where
    relax: "relaxDependencies deps g queue = Inr (g1, q1)" and gg: "graph g1 = graph g"
    and dm: "dom (inDegree g1) = dom (inDegree g)" and qs: "set q1 \<subseteq> set queue \<union> set deps"
    by blast
  have a: "targets g1 \<subseteq> keys g1" using "2.prems"(1) same_graph(1,2)[OF gg] by simp
  have b: "set q1 \<subseteq> keys g1"
    using qs dt "2.prems"(1,2) same_graph(1)[OF gg] by simp blast
  have c: "targets g1 \<subseteq> dom (inDegree g1)" using "2.prems"(3) dm same_graph(2)[OF gg] by simp
  from "2.IH"[OF deps relax refl a b c] kahnLoop_step_eq[OF deps relax, of srt]
  show ?case by simp
qed

lemma seedQueue_defined:
  "fst ` set adj \<subseteq> dom (inDegree g) \<Longrightarrow>
     \<exists>q. seedQueue g adj queue = Inr q \<and> set q \<subseteq> set queue \<union> fst ` set adj"
proof -
  assume a: "fst ` set adj \<subseteq> dom (inDegree g)"
  then have "\<forall>p\<in>fst ` set adj. inDegree g p \<noteq> None" by auto
  from seedQueue_result[OF this, of queue] show ?thesis by auto
qed

lemma topologicalSort_defined:
  assumes "targetsRegistered g" "keys g \<subseteq> dom (inDegree g)"
  shows "\<exists>r. topologicalSort g = Inr r"
proof -
  have tk: "targets g \<subseteq> keys g" using assms(1) by (simp add: targetsRegistered_iff)
  from seedQueue_defined[of "graph g" g "[]"] assms(2) obtain q where
    q: "seedQueue g (graph g) [] = Inr q" "set q \<subseteq> keys g"
    by (auto simp: keys_def)
  have "targets g \<subseteq> dom (inDegree g)" using tk assms(2) by blast
  from kahnLoop_defined[OF tk q(2) this, of "[]"] obtain r where
    "kahnLoop g q [] = Inr r" by blast
  with q(1) show ?thesis by (cases r) (simp add: topologicalSort_def)
qed

lemma detectCycleUtil_defined:
  "targets g \<subseteq> keys g \<Longrightarrow> pkg \<in> keys g \<Longrightarrow> \<exists>r. detectCycleUtil g pkg st = Inr r"
  "targets g \<subseteq> keys g \<Longrightarrow> set deps \<subseteq> keys g \<Longrightarrow> \<exists>r. detectCycleUtilDeps g deps st = Inr r"
proof (induction g pkg st and g deps st rule: detectCycleUtil_detectCycleUtilDeps.induct)
  case (1 g pkg visited recStack)
  from "1.prems"(2) obtain deps where deps: "getDependencies g pkg = Inr deps"
    using key_getDependencies by blast
  have dk: "set deps \<subseteq> keys g"
    using getDependencies_targets[OF deps] "1.prems"(1) by blast
  show ?case
  proof (cases "pkg \<in> recStack \<or> pkg \<in> visited")
    case True
    then show ?thesis by (auto simp: detectCycleUtil.simps)
  next
    case False
    then have nr: "pkg \<notin> recStack" and nv: "pkg \<notin> visited" by auto
    from "1.IH"[OF nr nv deps "1.prems"(1) dk] obtain r where
      "detectCycleUtilDeps g deps (insert pkg visited, insert pkg recStack) = Inr r" by blast
    with deps nr nv show ?thesis
      by (cases r) (auto simp: detectCycleUtil.simps split: bool.splits)
  qed
next
  case (2 g st)
  show ?case by auto
next
  case (3 g dep deps st)
  from "3.prems"(2) have dk: "dep \<in> keys g" and rk: "set deps \<subseteq> keys g" by auto
  from "3.IH"(1)[OF "3.prems"(1) dk] obtain r where r: "detectCycleUtil g dep st = Inr r" by blast
  obtain b st1 where rr: "r = (b, st1)" by (cases r) auto
  show ?case
  proof (cases b)
    case True
    with r rr show ?thesis by auto
  next
    case False
    from "3.IH"(2)[OF r rr[symmetric] _ "3.prems"(1) rk] False r rr show ?thesis by simp
  qed
qed

lemma detectCycleLoop_defined:
  "targets g \<subseteq> keys g \<Longrightarrow> fst ` set rest \<subseteq> keys g \<Longrightarrow> \<exists>b. detectCycleLoop g rest st = Inr b"
proof (induction rest arbitrary: st)
  case Nil
  show ?case by auto
next
  case (Cons a rest)
  obtain pkg deps where a: "a = (pkg, deps)" by (cases a) auto
  from Cons.prems a have "pkg \<in> keys g" by simp
  from detectCycleUtil_defined(1)[OF Cons.prems(1) this, of st] obtain b st1 where
    r: "detectCycleUtil g pkg st = Inr (b, st1)" by auto
  show ?case
  proof (cases b)
    case True
    with r a show ?thesis by auto
  next
    case False
    from Cons.IH[OF Cons.prems(1), of st1] Cons.prems(2) False r a show ?thesis by simp
  qed
qed

lemma detectCycle_defined:
  assumes "targetsRegistered g"
  shows "\<exists>b. detectCycle g = Inr b"
  using detectCycleLoop_defined[of g "graph g" "({}, {})"] assms
  by (simp add: detectCycle_def targetsRegistered_iff keys_def)


lemma mainGraph_inDegreeFresh: "inDegreeFresh mainGraph"
  by (simp add: inDegreeFresh_def dependentCount_def mainGraph_graph mainGraph_inDegree pkg_distinct)

lemma mainGraph_record:
  "mainGraph = \<lparr>graph = [(pkgA, [pkgB, pkgD]), (pkgB, [pkgC]), (pkgC, []), (pkgD, [])],
      inDegree = [pkgA \<mapsto> 0, pkgB \<mapsto> 1, pkgC \<mapsto> 1, pkgD \<mapsto> 1]\<rparr>"
  using mainGraph_graph mainGraph_inDegree by (cases mainGraph) simp

lemma mainGraph_sort:
  "topologicalSort mainGraph =
     Inr \<lparr>sortedPackages = [pkgA, pkgB, pkgD, pkgC],
          printed = [''Topological Order (Build Order):'', ''pkgA 1.0.1'', ''pkgB 2.3.0'',
                     ''pkgD 1.5.0'', ''pkgC 3.1.2''],
          graphAfter = mainGraphSorted\<rparr>"
  apply (simp add: mainGraph_record topologicalSort_def getInDegree_def setInDegree_def
      getDependencies_def sortReport_def pkg_distinct mainGraphSorted_def)
  apply (auto simp: fun_eq_iff pkg_distinct pkgA_def pkgB_def pkgC_def pkgD_def)
  done

lemma mainGraphSorted_sort:
  "topologicalSort mainGraphSorted =
     Inr \<lparr>sortedPackages = [pkgA, pkgB, pkgC, pkgD],
          printed = [''Topological Order (Build Order):'', ''pkgA 1.0.1'', ''pkgB 2.3.0'',
                     ''pkgC 3.1.2'', ''pkgD 1.5.0''],
          graphAfter = mainGraphSortedTwice\<rparr>"
  apply (simp add: mainGraphSorted_def topologicalSort_def getInDegree_def setInDegree_def
      getDependencies_def sortReport_def pkg_distinct mainGraphSortedTwice_def)
  apply (auto simp: fun_eq_iff pkg_distinct pkgA_def pkgB_def pkgC_def pkgD_def)
  done


lemma sortReport_full:
  "length order = length (graph g) \<Longrightarrow>
     sortReport g order = ''Topological Order (Build Order):''
        # map (\<lambda>pkg. name pkg @ '' '' @ version pkg) order"
  by (simp add: sortReport_def)

lemma sort_complete_iff:
  assumes wf: "wellFormed g" and fr: "inDegreeFresh g" and r: "topologicalSort g = Inr r"
  shows "(length (sortedPackages r) = length (graph g))
           = (acyclic (edges g) \<and> targetsRegistered g)"
    and "length (sortedPackages r) \<le> length (graph g)"
    and "acyclic (edges g) \<Longrightarrow> set (sortedPackages r) = keys g"
    and "acyclic (edges g) \<Longrightarrow> targetsRegistered g"
proof -
  note inv = topologicalSort_inv[OF wf fr r]
  have gg: "graph (graphAfter r) = graph g" by (rule inv(2))
  have wf': "wellFormed (graphAfter r)" using wf same_graph(7)[OF gg] by simp
  note sub = kahn_final_subset[OF wf' inv(1), unfolded gg same_graph[OF gg]]
  show "length (sortedPackages r) \<le> length (graph g)" by (rule sub(1))
  have full: "set (sortedPackages r) = keys g" if ac: "acyclic (edges g)"
  proof -
    have "nodes g \<subseteq> set (sortedPackages r)"
      using kahn_final_acyclic[OF inv(1)] ac same_graph(3,5)[OF gg] by simp
    moreover have "set (sortedPackages r) \<subseteq> keys g"
      using inv(1) same_graph(1)[OF gg] unfolding kahnInv_def by simp
    ultimately show ?thesis by (auto simp: nodes_def)
  qed
  show "acyclic (edges g) \<Longrightarrow> set (sortedPackages r) = keys g" by (rule full)
  have len: "acyclic (edges g) \<and> targetsRegistered g"
    if "length (sortedPackages r) = length (graph g)"
  proof -
    from that have "set (sortedPackages r) = keys (graphAfter r)"
      using sub(2) same_graph(1)[OF gg] by simp
    from kahn_final_full[OF wf' inv(1) this]
    show "acyclic (edges g) \<and> targetsRegistered g"
      unfolding same_graph[OF gg] by (simp add: targetsRegistered_iff)
  qed
  show "targetsRegistered g" if ac: "acyclic (edges g)"
  proof -
    have "keys g \<subseteq> set (sortedPackages r)" using full[OF ac] by simp
    then have "length (sortedPackages r) = length (graph g)" by (rule sub(3))
    then show ?thesis using len by simp
  qed
  show "(length (sortedPackages r) = length (graph g))
           = (acyclic (edges g) \<and> targetsRegistered g)"
  proof
    assume "length (sortedPackages r) = length (graph g)"
    then have "set (sortedPackages r) = keys (graphAfter r)"
      using sub(2) same_graph(1)[OF gg] by simp
    from kahn_final_full[OF wf' inv(1) this]
    show "acyclic (edges g) \<and> targetsRegistered g"
      unfolding same_graph[OF gg] by (simp add: targetsRegistered_iff)
  next
    assume a: "acyclic (edges g) \<and> targetsRegistered g"
    then have "keys g \<subseteq> set (sortedPackages r)" using full by simp
    then show "length (sortedPackages r) = length (graph g)" by (rule sub(3))
  qed
qed

text \<open>
  C3. On every graph with freshly computed in-degrees (whose maps and sets hold each key
  once) the two cycle signals agree:
  \<open>detectCycle\<close> returns false exactly when \<open>topologicalSort\<close> returns having placed
  as many packages as the graph has (and then prints them all); when \<open>detectCycle\<close>
  returns true, a sort that returns has placed strictly fewer; and when every dependency
  target is registered both of them return.
\<close>

theorem cycle_signals_agree:
  assumes "wellFormed g" "inDegreeFresh g"
  shows "((detectCycle g = Inr False)
            = (\<exists>r. topologicalSort g = Inr r
                 \<and> length (sortedPackages r) = length (graph g)
                 \<and> printed r = ''Topological Order (Build Order):''
                      # map (\<lambda>pkg. name pkg @ '' '' @ version pkg) (sortedPackages r)))
       \<and> (detectCycle g = Inr True \<longrightarrow>
            (\<forall>r. topologicalSort g = Inr r \<longrightarrow>
               length (sortedPackages r) < length (graph g)
               \<and> printed r = [''Cycle detected! Topological sort is not possible.'']))
       \<and> (targetsRegistered g \<longrightarrow>
            (\<exists>b r. detectCycle g = Inr b \<and> topologicalSort g = Inr r))"
proof (intro conjI)
  note o = detectCycle_outcomes[OF wellFormed_distinct_keys[OF assms(1)]]
  note c = sort_complete_iff[OF assms]
  show "(detectCycle g = Inr False)
            = (\<exists>r. topologicalSort g = Inr r
                 \<and> length (sortedPackages r) = length (graph g)
                 \<and> printed r = ''Topological Order (Build Order):''
                      # map (\<lambda>pkg. name pkg @ '' '' @ version pkg) (sortedPackages r))"
  proof
    assume "detectCycle g = Inr False"
    then have a: "acyclic (edges g) \<and> targetsRegistered g" using o(1) by simp
    then obtain r where r: "topologicalSort g = Inr r"
      using topologicalSort_total[OF assms] by blast
    have l: "length (sortedPackages r) = length (graph g)" using c(1)[OF r] a by simp
    have "printed r = sortReport g (sortedPackages r)"
      by (rule topologicalSort_inv(3)[OF assms r])
    with l r show "\<exists>r. topologicalSort g = Inr r
                 \<and> length (sortedPackages r) = length (graph g)
                 \<and> printed r = ''Topological Order (Build Order):''
                      # map (\<lambda>pkg. name pkg @ '' '' @ version pkg) (sortedPackages r)"
      by (auto simp: sortReport_full)
  next
    assume "\<exists>r. topologicalSort g = Inr r
                 \<and> length (sortedPackages r) = length (graph g)
                 \<and> printed r = ''Topological Order (Build Order):''
                      # map (\<lambda>pkg. name pkg @ '' '' @ version pkg) (sortedPackages r)"
    then obtain r where "topologicalSort g = Inr r" "length (sortedPackages r) = length (graph g)"
      by blast
    then have "acyclic (edges g) \<and> targetsRegistered g" using c(1) by blast
    then show "detectCycle g = Inr False" using o(1) by simp
  qed
  show "detectCycle g = Inr True \<longrightarrow>
            (\<forall>r. topologicalSort g = Inr r \<longrightarrow>
               length (sortedPackages r) < length (graph g)
               \<and> printed r = [''Cycle detected! Topological sort is not possible.''])"
  proof (intro impI allI)
    fix r assume t: "detectCycle g = Inr True" and r: "topologicalSort g = Inr r"
    from o(2)[OF t] have "\<not> acyclic (edges g)" .
    with c(1)[OF r] have "length (sortedPackages r) \<noteq> length (graph g)" by simp
    with c(2)[OF r] have l: "length (sortedPackages r) < length (graph g)" by simp
    have "printed r = sortReport g (sortedPackages r)"
      by (rule topologicalSort_inv(3)[OF assms r])
    with l show "length (sortedPackages r) < length (graph g)
               \<and> printed r = [''Cycle detected! Topological sort is not possible.'']"
      by (simp add: sortReport_def)
  qed
  show "targetsRegistered g \<longrightarrow> (\<exists>b r. detectCycle g = Inr b \<and> topologicalSort g = Inr r)"
    using detectCycle_defined[of g] topologicalSort_total[OF assms] by blast
qed

theorem cycle_signals_agree_witness:
  "wellFormed mainGraph \<and> inDegreeFresh mainGraph \<and> targetsRegistered mainGraph
   \<and> detectCycle mainGraph = Inr False
   \<and> (\<exists>r. topologicalSort mainGraph = Inr r
         \<and> length (sortedPackages r) = length (graph mainGraph)
         \<and> printed r = ''Topological Order (Build Order):''
              # map (\<lambda>pkg. name pkg @ '' '' @ version pkg) (sortedPackages r))
   \<and> wellFormed cycleGraph \<and> inDegreeFresh cycleGraph
   \<and> detectCycle cycleGraph = Inr True
   \<and> topologicalSort cycleGraph =
       Inr \<lparr>sortedPackages = [],
            printed = [''Cycle detected! Topological sort is not possible.''],
            graphAfter = cycleGraph\<rparr>
   \<and> length ([] :: Package list) < length (graph cycleGraph)"
proof -
  let ?r = "\<lparr>sortedPackages = [],
            printed = [''Cycle detected! Topological sort is not possible.''],
            graphAfter = cycleGraph\<rparr>"
  from cycle_signals_agree[OF mainGraph_wellFormed mainGraph_inDegreeFresh] mainGraph_detectCycle
  have a: "\<exists>r. topologicalSort mainGraph = Inr r
         \<and> length (sortedPackages r) = length (graph mainGraph)
         \<and> printed r = ''Topological Order (Build Order):''
              # map (\<lambda>pkg. name pkg @ '' '' @ version pkg) (sortedPackages r)"
    by blast
  from cycle_signals_agree[OF cycleGraph_wellFormed cycleGraph_inDegreeFresh]
    cycleGraph_detectCycle cycleGraph_sort
  have "length (sortedPackages ?r) < length (graph cycleGraph)" by blast
  then have b: "length ([] :: Package list) < length (graph cycleGraph)" by simp
  from a b mainGraph_wellFormed mainGraph_inDegreeFresh mainGraph_targetsRegistered
    mainGraph_detectCycle cycleGraph_wellFormed cycleGraph_inDegreeFresh cycleGraph_detectCycle
    cycleGraph_sort
  show ?thesis by blast
qed


text \<open>
  C2. On an acyclic graph with freshly computed in-degrees (whose maps and sets hold each
  key once), the order \<open>topologicalSort\<close>
  produces follows one direction for all edges: for every edge from a package \<open>p\<close> to its
  dependency \<open>d\<close>, \<open>p\<close> comes before \<open>d\<close>. The order lists every package once and
  starts at a package that has no dependents. The sort returns whenever every dependency
  target is registered.
\<close>

theorem topologicalSort_dependents_first:
  assumes "wellFormed g" "inDegreeFresh g" "acyclic (edges g)"
  shows "(targetsRegistered g \<longrightarrow> (\<exists>r. topologicalSort g = Inr r))
       \<and> (\<forall>r. topologicalSort g = Inr r \<longrightarrow>
             (\<forall>p d. (p, d) \<in> edges g \<longrightarrow> precedes p d (sortedPackages r))
             \<and> distinct (sortedPackages r) \<and> set (sortedPackages r) = keys g
             \<and> (sortedPackages r \<noteq> [] \<longrightarrow> dependents g (hd (sortedPackages r)) = {}))"
proof (intro conjI allI impI)
  assume "targetsRegistered g"
  then show "\<exists>r. topologicalSort g = Inr r"
    using topologicalSort_total[OF assms(1,2)] by blast
next
  fix r assume r: "topologicalSort g = Inr r"
  note inv = topologicalSort_inv[OF assms(1,2) r]
  note gg = inv(2)
  note c = sort_complete_iff[OF assms(1,2) r]
  have full: "set (sortedPackages r) = keys g" using c(3) assms(3) by simp
  have reg: "targetsRegistered g" using c(4) assms(3) by simp
  { fix p d assume e: "(p, d) \<in> edges g"
    then have "d \<in> keys g" using reg edges_target by (auto simp: targetsRegistered_iff)
    then have "d \<in> set (sortedPackages r)" using full by simp
    with kahn_final_order[OF inv(1), of p d] e same_graph(3)[OF gg]
    show "precedes p d (sortedPackages r)" by simp }
  show "distinct (sortedPackages r)" using inv(1) unfolding kahnInv_def by simp
  show "set (sortedPackages r) = keys g" by (rule full)
  { assume "sortedPackages r \<noteq> []"
    then obtain x xs where x: "sortedPackages r = x # xs" by (cases "sortedPackages r") auto
    have "depsBefore (graphAfter r) {} (sortedPackages r)"
      using inv(1) unfolding kahnInv_def by simp
    then have "dependents g x = {}" using x same_graph(4)[OF gg] by simp
    then show "dependents g (hd (sortedPackages r)) = {}" using x by simp }
qed

theorem topologicalSort_dependents_first_witness:
  "wellFormed mainGraph \<and> inDegreeFresh mainGraph \<and> acyclic (edges mainGraph)
   \<and> topologicalSort mainGraph =
       Inr \<lparr>sortedPackages = [pkgA, pkgB, pkgD, pkgC],
            printed = [''Topological Order (Build Order):'', ''pkgA 1.0.1'', ''pkgB 2.3.0'',
                       ''pkgD 1.5.0'', ''pkgC 3.1.2''],
            graphAfter = mainGraphSorted\<rparr>
   \<and> edges mainGraph = {(pkgA, pkgB), (pkgA, pkgD), (pkgB, pkgC)}
   \<and> precedes pkgA pkgB [pkgA, pkgB, pkgD, pkgC]
   \<and> precedes pkgA pkgD [pkgA, pkgB, pkgD, pkgC]
   \<and> precedes pkgB pkgC [pkgA, pkgB, pkgD, pkgC]
   \<and> set [pkgA, pkgB, pkgD, pkgC] = keys mainGraph
   \<and> dependents mainGraph pkgA = {}"
proof -
  let ?r = "\<lparr>sortedPackages = [pkgA, pkgB, pkgD, pkgC],
            printed = [''Topological Order (Build Order):'', ''pkgA 1.0.1'', ''pkgB 2.3.0'',
                       ''pkgD 1.5.0'', ''pkgC 3.1.2''],
            graphAfter = mainGraphSorted\<rparr>"
  have s: "sortedPackages ?r = [pkgA, pkgB, pkgD, pkgC]" by simp
  have e: "(pkgA, pkgB) \<in> edges mainGraph" "(pkgA, pkgD) \<in> edges mainGraph"
    "(pkgB, pkgC) \<in> edges mainGraph"
    by (simp_all add: mainGraph_edges)
  from topologicalSort_dependents_first[OF mainGraph_wellFormed mainGraph_inDegreeFresh
      mainGraph_acyclic] mainGraph_sort
  have t: "(\<forall>p d. (p, d) \<in> edges mainGraph \<longrightarrow> precedes p d (sortedPackages ?r))
        \<and> distinct (sortedPackages ?r) \<and> set (sortedPackages ?r) = keys mainGraph
        \<and> (sortedPackages ?r \<noteq> [] \<longrightarrow> dependents mainGraph (hd (sortedPackages ?r)) = {})"
    by blast
  from t e have "precedes pkgA pkgB (sortedPackages ?r) \<and> precedes pkgA pkgD (sortedPackages ?r)
        \<and> precedes pkgB pkgC (sortedPackages ?r)"
    by blast
  moreover from t have "set (sortedPackages ?r) = keys mainGraph
        \<and> dependents mainGraph (hd (sortedPackages ?r)) = {}"
    by simp
  ultimately have "precedes pkgA pkgB [pkgA, pkgB, pkgD, pkgC]
        \<and> precedes pkgA pkgD [pkgA, pkgB, pkgD, pkgC]
        \<and> precedes pkgB pkgC [pkgA, pkgB, pkgD, pkgC]
        \<and> set [pkgA, pkgB, pkgD, pkgC] = keys mainGraph
        \<and> dependents mainGraph pkgA = {}"
    unfolding s by (simp del: precedes.simps)
  with mainGraph_wellFormed mainGraph_inDegreeFresh mainGraph_acyclic mainGraph_sort
    mainGraph_edges
  show ?thesis by blast
qed

lemma sort_counters_left:
  assumes wf: "wellFormed g" and fr: "inDegreeFresh g" and r: "topologicalSort g = Inr r"
  shows "p \<in> nodes g \<Longrightarrow>
           inDegree (graphAfter r) p = Some (int (card (dependents g p - set (sortedPackages r))))"
    and "p \<in> nodes g \<Longrightarrow>
           (inDegree (graphAfter r) p = Some 0) = (p \<in> set (sortedPackages r))"
proof -
  note inv = topologicalSort_inv[OF wf fr r]
  note gg = inv(2)
  from inv(1) have deg: "\<And>p. p \<in> nodes g \<Longrightarrow>
      inDegree (graphAfter r) p = Some (int (card (dependents g p - set (sortedPackages r))))"
    and mem: "set (sortedPackages r) = {p. p \<in> nodes g \<and> dependents g p \<subseteq> set (sortedPackages r)}"
    unfolding kahnInv_def same_graph[OF gg] by simp_all
  show "p \<in> nodes g \<Longrightarrow>
           inDegree (graphAfter r) p = Some (int (card (dependents g p - set (sortedPackages r))))"
    by (rule deg)
  show "(inDegree (graphAfter r) p = Some 0) = (p \<in> set (sortedPackages r))" if pn: "p \<in> nodes g"
  proof -
    have "finite (dependents g p - set (sortedPackages r))" using finite_dependents by simp
    then have "(inDegree (graphAfter r) p = Some 0) = (dependents g p \<subseteq> set (sortedPackages r))"
      using deg[OF pn] by auto
    also have "\<dots> = (p \<in> set (sortedPackages r))" using mem pn by blast
    finally show ?thesis .
  qed
qed

lemma second_sort_seeds:
  assumes wf: "wellFormed g" and fr: "inDegreeFresh g" and r: "topologicalSort g = Inr r"
  shows "seedQueue (graphAfter r) (graph (graphAfter r)) []
           = Inr (filter (\<lambda>p. p \<in> set (sortedPackages r)) (map fst (graph g)))"
proof -
  note gg = topologicalSort_inv(2)[OF wf fr r]
  note c = sort_counters_left[OF wf fr r]
  have kn: "p \<in> nodes g" if "p \<in> fst ` set (graph g)" for p
    using that by (simp add: nodes_def keys_def)
  have "\<forall>p\<in>fst ` set (graph g). inDegree (graphAfter r) p \<noteq> None"
    using c(1) kn by auto
  from seedQueue_result[OF this, of "[]"]
  have "seedQueue (graphAfter r) (graph g) []
          = Inr (filter (\<lambda>p. inDegree (graphAfter r) p = Some 0) (map fst (graph g)))"
    by simp
  moreover have "filter (\<lambda>p. inDegree (graphAfter r) p = Some 0) (map fst (graph g))
           = filter (\<lambda>p. p \<in> set (sortedPackages r)) (map fst (graph g))"
    using c(2) kn by (intro filter_cong) auto
  ultimately show ?thesis unfolding gg by simp
qed

lemma orphanCycleGraph_record:
  "orphanCycleGraph =
     \<lparr>graph = [(pkgA, [pkgB]), (pkgC, [pkgC, pkgB])],
      inDegree = [pkgA \<mapsto> 0, pkgB \<mapsto> 2, pkgC \<mapsto> 1]\<rparr>"
  by (auto simp: orphanCycleGraph_def addDependency_def addPackage_def emptyGraph_def
      insertDep_def pkg_distinct fun_eq_iff)

lemma orphanCycleGraph_wellFormed: "wellFormed orphanCycleGraph"
  by (simp add: wellFormed_def orphanCycleGraph_record pkg_distinct)

lemma orphanCycleGraph_inDegreeFresh: "inDegreeFresh orphanCycleGraph"
  by (simp add: inDegreeFresh_def dependentCount_def orphanCycleGraph_record pkg_distinct)

lemma orphanCycleGraph_unregistered: "\<not> targetsRegistered orphanCycleGraph"
  by (simp add: targetsRegistered_def packageExists_def orphanCycleGraph_record pkg_distinct)

lemma orphanCycleGraph_sort:
  "topologicalSort orphanCycleGraph =
     Inr \<lparr>sortedPackages = [pkgA],
          printed = [''Cycle detected! Topological sort is not possible.''],
          graphAfter = orphanCycleGraphSorted\<rparr>"
  apply (simp add: orphanCycleGraph_record topologicalSort_def getInDegree_def setInDegree_def
      getDependencies_def sortReport_def pkg_distinct orphanCycleGraphSorted_def)
  apply (auto simp: fun_eq_iff pkg_distinct)
  done

lemma orphanCycleGraphSorted_sort: "topologicalSort orphanCycleGraphSorted = Inl NotFound"
  by (simp add: orphanCycleGraphSorted_def topologicalSort_def getInDegree_def setInDegree_def
      getDependencies_def pkg_distinct)

text \<open>
  C5, as amended. After \<open>topologicalSort\<close> has run once, and returned, on a graph with
  freshly computed in-degrees, each counter is left at the number of dependents of its
  package that were not output, which is zero for every package of the produced order. A
  second call on the graph as left, without recomputing the in-degrees, seeds its queue
  with exactly the packages the first call output. When every dependency target is
  registered the second call returns, and whenever it returns its result begins with the
  packages of the first order, in the iteration order of the adjacency map, so it is not
  empty unless the first result was; on an acyclic graph it is every package of the graph
  in iteration order, whatever the edges are. With an unregistered target the second call
  can raise \<open>NotFound\<close> instead of producing a result: on the graph in which \<open>pkgA\<close>
  and \<open>pkgC\<close> depend on the unregistered \<open>pkgB\<close> and \<open>pkgC\<close> on itself, the first
  call returns the order of the one package \<open>pkgA\<close> and the second call raises.
\<close>

theorem second_sort_restarts_from_first_order:
  assumes "wellFormed g" "inDegreeFresh g" "topologicalSort g = Inr r1"
  shows "(\<forall>p. p \<in> keys g \<union> targets g \<longrightarrow>
            inDegree (graphAfter r1) p
              = Some (int (card (dependents g p - set (sortedPackages r1)))))
       \<and> (\<forall>p. p \<in> set (sortedPackages r1) \<longrightarrow> inDegree (graphAfter r1) p = Some 0)
       \<and> seedQueue (graphAfter r1) (graph (graphAfter r1)) []
            = Inr (filter (\<lambda>p. p \<in> set (sortedPackages r1)) (map fst (graph g)))
       \<and> (\<forall>r2. topologicalSort (graphAfter r1) = Inr r2 \<longrightarrow>
             (\<exists>ys. sortedPackages r2
                = filter (\<lambda>p. p \<in> set (sortedPackages r1)) (map fst (graph g)) @ ys))
       \<and> (targetsRegistered g \<longrightarrow>
             (\<exists>r2 ys. topologicalSort (graphAfter r1) = Inr r2
                \<and> sortedPackages r2
                   = filter (\<lambda>p. p \<in> set (sortedPackages r1)) (map fst (graph g)) @ ys))
       \<and> (acyclic (edges g) \<longrightarrow>
             (\<exists>r2. topologicalSort (graphAfter r1) = Inr r2
                \<and> sortedPackages r2 = map fst (graph g)))
       \<and> wellFormed orphanCycleGraph \<and> inDegreeFresh orphanCycleGraph
       \<and> \<not> targetsRegistered orphanCycleGraph
       \<and> topologicalSort orphanCycleGraph =
            Inr \<lparr>sortedPackages = [pkgA],
                 printed = [''Cycle detected! Topological sort is not possible.''],
                 graphAfter = orphanCycleGraphSorted\<rparr>
       \<and> topologicalSort orphanCycleGraphSorted = Inl NotFound"
proof (intro conjI allI impI)
  note inv = topologicalSort_inv[OF assms]
  note gg = inv(2)
  note c = sort_counters_left[OF assms]
  note seeds = second_sort_seeds[OF assms]
  let ?g1 = "graphAfter r1"
  let ?res = "sortedPackages r1"
  let ?seeds = "filter (\<lambda>p. p \<in> set ?res) (map fst (graph g))"
  have sub: "set ?res \<subseteq> nodes g"
    using inv(1) unfolding kahnInv_def same_graph[OF gg] by (auto simp: nodes_def)
  have prefix: "\<exists>ys. sortedPackages r2 = ?seeds @ ys" if r2: "topologicalSort ?g1 = Inr r2" for r2
  proof -
    from r2 obtain g2 where "kahnLoop ?g1 ?seeds [] = Inr (sortedPackages r2, g2)"
      unfolding topologicalSort_def seeds by (auto split: sum.splits)
    from kahnLoop_prefix[OF this] show ?thesis by simp
  qed
  { fix p assume "p \<in> keys g \<union> targets g"
    then show "inDegree ?g1 p = Some (int (card (dependents g p - set ?res)))"
      using c(1)[of p] by (simp add: nodes_def) }
  { fix p assume p: "p \<in> set ?res"
    then have "p \<in> nodes g" using sub by blast
    with c(2)[of p] p show "inDegree ?g1 p = Some 0" by simp }
  show "seedQueue ?g1 (graph ?g1) [] = Inr ?seeds" by (rule seeds)
  { fix r2 assume "topologicalSort ?g1 = Inr r2"
    then show "\<exists>ys. sortedPackages r2 = ?seeds @ ys" by (rule prefix) }
  { assume reg: "targetsRegistered g"
    have reg1: "targetsRegistered ?g1"
      using reg same_graph(1,2)[OF gg] by (simp add: targetsRegistered_iff)
    have "keys ?g1 \<subseteq> dom (inDegree ?g1)"
    proof
      fix p assume "p \<in> keys ?g1"
      then have "p \<in> nodes g" using same_graph(1)[OF gg] by (simp add: nodes_def)
      from c(1)[OF this] show "p \<in> dom (inDegree ?g1)" by auto
    qed
    from topologicalSort_defined[OF reg1 this] obtain r2 where
      r2: "topologicalSort ?g1 = Inr r2" by blast
    with prefix[OF r2]
    show "\<exists>r2 ys. topologicalSort ?g1 = Inr r2 \<and> sortedPackages r2 = ?seeds @ ys" by blast }
  { assume ac: "acyclic (edges g)"
    note s = sort_complete_iff[OF assms]
    have full: "set ?res = keys g" using s(3) ac by simp
    have reg: "targets g \<subseteq> keys g" using s(4) ac by (simp add: targetsRegistered_iff)
    have all: "?seeds = map fst (graph g)"
      using full by (simp add: keys_def)
    have wf1: "wellFormed ?g1" using assms(1) same_graph(7)[OF gg] by simp
    have q1: "set (map fst (graph g)) \<subseteq> keys ?g1"
      using same_graph(1)[OF gg] by (simp add: keys_def)
    have np: "\<forall>p\<in>targets ?g1. \<exists>n. inDegree ?g1 p = Some n \<and> n \<le> 0"
    proof
      fix p assume "p \<in> targets ?g1"
      then have "p \<in> nodes g" "p \<in> set ?res"
        using same_graph(2)[OF gg] reg full by (auto simp: nodes_def)
      then have "inDegree ?g1 p = Some 0" using c(2)[of p] by simp
      then show "\<exists>n. inDegree ?g1 p = Some n \<and> n \<le> 0" by simp
    qed
    from kahnLoop_nonpositive[OF wf1 q1 np, of "[]"] obtain g2 where
      "kahnLoop ?g1 (map fst (graph g)) [] = Inr (map fst (graph g), g2)" by auto
    then show "\<exists>r2. topologicalSort ?g1 = Inr r2 \<and> sortedPackages r2 = map fst (graph g)"
      unfolding topologicalSort_def seeds all by simp }
  show "wellFormed orphanCycleGraph" by (rule orphanCycleGraph_wellFormed)
  show "inDegreeFresh orphanCycleGraph" by (rule orphanCycleGraph_inDegreeFresh)
  show "\<not> targetsRegistered orphanCycleGraph" by (rule orphanCycleGraph_unregistered)
  show "topologicalSort orphanCycleGraph =
            Inr \<lparr>sortedPackages = [pkgA],
                 printed = [''Cycle detected! Topological sort is not possible.''],
                 graphAfter = orphanCycleGraphSorted\<rparr>"
    by (rule orphanCycleGraph_sort)
  show "topologicalSort orphanCycleGraphSorted = Inl NotFound"
    by (rule orphanCycleGraphSorted_sort)
qed

theorem second_sort_restarts_from_first_order_witness:
  "wellFormed mainGraph \<and> inDegreeFresh mainGraph
   \<and> topologicalSort mainGraph =
       Inr \<lparr>sortedPackages = [pkgA, pkgB, pkgD, pkgC],
            printed = [''Topological Order (Build Order):'', ''pkgA 1.0.1'', ''pkgB 2.3.0'',
                       ''pkgD 1.5.0'', ''pkgC 3.1.2''],
            graphAfter = mainGraphSorted\<rparr>
   \<and> targetsRegistered mainGraph \<and> acyclic (edges mainGraph)
   \<and> (\<exists>r2 ys. topologicalSort mainGraphSorted = Inr r2
          \<and> sortedPackages r2
             = filter (\<lambda>p. p \<in> set [pkgA, pkgB, pkgD, pkgC]) (map fst (graph mainGraph)) @ ys)
   \<and> (\<exists>r2. topologicalSort mainGraphSorted = Inr r2
          \<and> sortedPackages r2 = map fst (graph mainGraph))"
proof -
  let ?r = "\<lparr>sortedPackages = [pkgA, pkgB, pkgD, pkgC],
            printed = [''Topological Order (Build Order):'', ''pkgA 1.0.1'', ''pkgB 2.3.0'',
                       ''pkgD 1.5.0'', ''pkgC 3.1.2''],
            graphAfter = mainGraphSorted\<rparr>"
  have g: "graphAfter ?r = mainGraphSorted" and s: "sortedPackages ?r = [pkgA, pkgB, pkgD, pkgC]"
    by simp_all
  note t = second_sort_restarts_from_first_order[OF mainGraph_wellFormed mainGraph_inDegreeFresh
      mainGraph_sort]
  from t mainGraph_acyclic
  have "\<exists>r2. topologicalSort (graphAfter ?r) = Inr r2
          \<and> sortedPackages r2 = map fst (graph mainGraph)"
    by blast
  then have a: "\<exists>r2. topologicalSort mainGraphSorted = Inr r2
          \<and> sortedPackages r2 = map fst (graph mainGraph)"
    unfolding g .
  from t mainGraph_targetsRegistered
  have "\<exists>r2 ys. topologicalSort (graphAfter ?r) = Inr r2
          \<and> sortedPackages r2
             = filter (\<lambda>p. p \<in> set (sortedPackages ?r)) (map fst (graph mainGraph)) @ ys"
    by blast
  then have b: "\<exists>r2 ys. topologicalSort mainGraphSorted = Inr r2
          \<and> sortedPackages r2
             = filter (\<lambda>p. p \<in> set [pkgA, pkgB, pkgD, pkgC]) (map fst (graph mainGraph)) @ ys"
    unfolding g s .
  from a b mainGraph_wellFormed mainGraph_inDegreeFresh mainGraph_sort mainGraph_acyclic
    mainGraph_targetsRegistered
  show ?thesis by blast
qed

theorem second_sort_counterexample:
  "topologicalSort mainGraph =
       Inr \<lparr>sortedPackages = [pkgA, pkgB, pkgD, pkgC],
            printed = [''Topological Order (Build Order):'', ''pkgA 1.0.1'', ''pkgB 2.3.0'',
                       ''pkgD 1.5.0'', ''pkgC 3.1.2''],
            graphAfter = mainGraphSorted\<rparr>
   \<and> inDegree mainGraph pkgB = Some 1 \<and> inDegree mainGraphSorted pkgB = Some 0
   \<and> topologicalSort mainGraphSorted =
       Inr \<lparr>sortedPackages = [pkgA, pkgB, pkgC, pkgD],
            printed = [''Topological Order (Build Order):'', ''pkgA 1.0.1'', ''pkgB 2.3.0'',
                       ''pkgC 3.1.2'', ''pkgD 1.5.0''],
            graphAfter = mainGraphSortedTwice\<rparr>"
  using mainGraph_sort mainGraphSorted_sort
  by (simp add: mainGraph_inDegree mainGraphSorted_def pkg_distinct)


section \<open>Building the graph, and graphs with unregistered targets\<close>

lemma map_of_graphInsert:
  "map_of (graphInsert adj p d) =
     (map_of adj)(p \<mapsto> insertDep d (case map_of adj p of None \<Rightarrow> [] | Some ds \<Rightarrow> ds))"
  by (induction adj p d rule: graphInsert.induct) (auto simp: fun_eq_iff)

text \<open>
  C6, as amended. For every call \<open>addDependency(p, d)\<close>: afterwards \<open>p\<close> has an
  adjacency entry, created implicitly when \<open>p\<close> had none (so an unregistered \<open>p\<close> does
  gain an entry), and that entry is the former dependency set of \<open>p\<close> with \<open>d\<close> inserted.
  The in-degree of \<open>d\<close> is incremented even if \<open>d\<close> was never registered, its counter
  being created at 0 first, and \<open>d\<close> gains no adjacency entry of its own unless it is
  \<open>p\<close>: an in-degree entry that the adjacency map does not reflect.
\<close>

theorem addDependency_creates_entry_for_source:
  "packageExists (addDependency g p d) p
   \<and> getDependencies (addDependency g p d) p
       = Inr (insertDep d (case map_of (graph g) p of None \<Rightarrow> [] | Some ds \<Rightarrow> ds))
   \<and> d \<in> set (insertDep d (case map_of (graph g) p of None \<Rightarrow> [] | Some ds \<Rightarrow> ds))
   \<and> inDegree (addDependency g p d) d
       = Some ((case inDegree g d of None \<Rightarrow> 0 | Some n \<Rightarrow> n) + 1)
   \<and> (packageExists (addDependency g p d) d = (packageExists g d \<or> d = p))"
  by (auto simp: packageExists_def getDependencies_def addDependency_def map_of_graphInsert
      insertDep_def)

theorem addDependency_creates_entry_for_source_witness:
  "packageExists (addDependency emptyGraph pkgA pkgB) pkgA
   \<and> getDependencies (addDependency emptyGraph pkgA pkgB) pkgA = Inr [pkgB]
   \<and> inDegree (addDependency emptyGraph pkgA pkgB) pkgB = Some 1
   \<and> \<not> packageExists (addDependency emptyGraph pkgA pkgB) pkgB"
  using addDependency_creates_entry_for_source[of emptyGraph pkgA pkgB]
  by (simp add: emptyGraph_def insertDep_def packageExists_def pkg_distinct)

text \<open>On the empty graph, \<open>addDependency(pkgA, pkgB)\<close> registers the unregistered
  \<open>pkgA\<close>.\<close>

theorem addDependency_unregistered_source_counterexample:
  "\<not> packageExists emptyGraph pkgA
   \<and> packageExists (addDependency emptyGraph pkgA pkgB) pkgA
   \<and> graph (addDependency emptyGraph pkgA pkgB) = [(pkgA, [pkgB])]"
  by (simp add: packageExists_def addDependency_def emptyGraph_def insertDep_def)

text \<open>
  C4. The stored in-degree is not the number of dependents after every sequence of calls.
  Registering \<open>pkgB\<close> again after \<open>pkgA\<close> was made to depend on it resets its counter
  to 0 although one package depends on it; adding the edge from \<open>pkgA\<close> to \<open>pkgB\<close>
  twice leaves the counter at 2 although one package depends on it, and on that graph
  \<open>detectCycle\<close> finds no cycle while \<open>topologicalSort\<close> places one package of two
  and reports a cycle.
\<close>

theorem inDegree_differs_from_dependent_count:
  "graph reRegisteredGraph = [(pkgA, [pkgB]), (pkgB, [])]
   \<and> inDegree reRegisteredGraph pkgB = Some 0
   \<and> dependentCount reRegisteredGraph pkgB = 1
   \<and> graph doubleEdgeGraph = [(pkgA, [pkgB]), (pkgB, [])]
   \<and> inDegree doubleEdgeGraph pkgB = Some 2
   \<and> dependentCount doubleEdgeGraph pkgB = 1
   \<and> detectCycle doubleEdgeGraph = Inr False
   \<and> map_sum id sortedPackages (topologicalSort doubleEdgeGraph) = Inr [pkgA]
   \<and> map_sum id printed (topologicalSort doubleEdgeGraph)
        = Inr [''Cycle detected! Topological sort is not possible.'']"
  by (simp add: reRegisteredGraph_def doubleEdgeGraph_def addPackage_def addDependency_def
      emptyGraph_def insertDep_def dependentCount_def pkg_distinct
      detectCycle_def detectCycleUtil.simps topologicalSort_def getDependencies_def
      getInDegree_def setInDegree_def sortReport_def)

lemma orphanGraph_detectCycle: "detectCycle orphanGraph = Inl NotFound"
  by (simp add: detectCycle_def orphanGraph_graph getDependencies_def detectCycleUtil.simps
      pkg_distinct)

lemma orphanGraph_topologicalSort: "topologicalSort orphanGraph = Inl NotFound"
  by (simp add: topologicalSort_def orphanGraph_graph orphanGraph_inDegree getDependencies_def
       getInDegree_def setInDegree_def pkg_distinct)

lemma orphanGraph_orphan: "\<not> packageExists orphanGraph pkgB \<and> (pkgA, pkgB) \<in> edges orphanGraph"
  by (simp add: packageExists_def orphanGraph_graph edges_def edgeList_def pkg_distinct)

theorem orphan_target_counterexample:
  "(pkgA, pkgB) \<in> edges orphanGraph \<and> \<not> packageExists orphanGraph pkgB
   \<and> detectCycle orphanGraph = Inl NotFound
   \<and> topologicalSort orphanGraph = Inl NotFound"
  using orphanGraph_detectCycle orphanGraph_topologicalSort orphanGraph_orphan by simp

lemma detectConflictLoop_empty_entries:
  "detectConflictLoop (adj @ map (\<lambda>d. (d, [])) os) = detectConflictLoop adj"
proof (induction adj rule: detectConflictLoop.induct)
  case 1
  show ?case by (induction os) simp_all
next
  case (2 pkg deps rest)
  then show ?case by (simp split: option.splits)
qed

lemma visualizeLoop_empty_entries:
  "visualizeLoop (adj @ map (\<lambda>d. (d, [])) os) = visualizeLoop adj"
proof (induction adj rule: visualizeLoop.induct)
  case 1
  show ?case by (induction os) simp_all
next
  case (2 p deps rest)
  then show ?case by simp
qed

lemma analyzeImpactLoop_empty_entries:
  "analyzeImpactLoop (adj @ map (\<lambda>d. (d, [])) os) t = analyzeImpactLoop adj t"
proof (induction adj t rule: analyzeImpactLoop.induct)
  case (1 pkg)
  show ?case by (induction os) simp_all
next
  case (2 p deps rest pkg)
  then show ?case by simp
qed

lemma registerOrphans_registered: "targetsRegistered (registerOrphans g)"
proof -
  have t: "targets (registerOrphans g) = targets g"
    by (simp add: targets_def registerOrphans_def comp_def)
  have k: "keys (registerOrphans g) = keys g \<union> set (orphans g)"
    by (auto simp: keys_def registerOrphans_def image_Un image_image)
  have "targets g \<subseteq> keys g \<union> set (orphans g)"
    by (auto simp: orphans_def targets_def keys_def packageExists_def map_of_eq_None_iff)
  then show ?thesis unfolding targetsRegistered_iff t k .
qed


text \<open>
  C7, as amended. On every graph, also one with a dependency target that has no adjacency
  entry, \<open>detectConflict\<close>, \<open>visualize\<close> and \<open>analyzeImpact\<close> give the result
  they give on the graph in which every such target is registered with an empty
  dependency set: they treat the missing entry as having no further dependencies.
  \<open>detectCycle\<close> and \<open>topologicalSort\<close> do not tolerate a missing entry: they return
  on every graph whose dependency targets are all registered (the sort when every package
  also has an in-degree entry), and on the graph with the one edge from \<open>pkgA\<close> to the
  unregistered \<open>pkgB\<close> both fail with \<open>NotFound\<close>.
\<close>

theorem missing_entry_tolerated_by_scans_only:
  "detectConflict g = detectConflict (registerOrphans g)
   \<and> visualize g = visualize (registerOrphans g)
   \<and> analyzeImpact g t = analyzeImpact (registerOrphans g) t
   \<and> targetsRegistered (registerOrphans g)
   \<and> (targetsRegistered g \<longrightarrow> (\<exists>b. detectCycle g = Inr b))
   \<and> (targetsRegistered g \<and> keys g \<subseteq> dom (inDegree g) \<longrightarrow> (\<exists>r. topologicalSort g = Inr r))
   \<and> detectCycle orphanGraph = Inl NotFound
   \<and> topologicalSort orphanGraph = Inl NotFound"
proof (intro conjI impI)
  show "detectConflict g = detectConflict (registerOrphans g)"
    by (simp add: detectConflict_def registerOrphans_def detectConflictLoop_empty_entries)
  show "visualize g = visualize (registerOrphans g)"
    by (simp add: visualize_def registerOrphans_def visualizeLoop_empty_entries)
  show "analyzeImpact g t = analyzeImpact (registerOrphans g) t"
    by (simp add: analyzeImpact_def registerOrphans_def analyzeImpactLoop_empty_entries)
  show "targetsRegistered (registerOrphans g)" by (rule registerOrphans_registered)
  show "\<exists>b. detectCycle g = Inr b" if "targetsRegistered g"
    using that by (rule detectCycle_defined)
  show "\<exists>r. topologicalSort g = Inr r" if "targetsRegistered g \<and> keys g \<subseteq> dom (inDegree g)"
    using that topologicalSort_defined by blast
  show "detectCycle orphanGraph = Inl NotFound" by (rule orphanGraph_detectCycle)
  show "topologicalSort orphanGraph = Inl NotFound" by (rule orphanGraph_topologicalSort)
qed

lemma mainGraph_counters_defined: "keys mainGraph \<subseteq> dom (inDegree mainGraph)"
  by (simp add: keys_def mainGraph_graph mainGraph_inDegree)

theorem missing_entry_tolerated_by_scans_only_witness:
  "targetsRegistered mainGraph \<and> keys mainGraph \<subseteq> dom (inDegree mainGraph)
   \<and> (\<exists>b. detectCycle mainGraph = Inr b) \<and> (\<exists>r. topologicalSort mainGraph = Inr r)
   \<and> detectConflict orphanGraph = detectConflict (registerOrphans orphanGraph)"
  using missing_entry_tolerated_by_scans_only[of mainGraph]
    missing_entry_tolerated_by_scans_only[of orphanGraph]
    mainGraph_targetsRegistered mainGraph_counters_defined
  by blast

lemma visualizeLoop_edgeList:
  "visualizeLoop adj = map (\<lambda>(p, d). visualizeLine p d) (edgeList adj)"
  by (induction adj rule: visualizeLoop.induct) (simp_all add: edgeList_def comp_def)

lemma analyzeImpactLoop_filter:
  "analyzeImpactLoop adj t = map fst (filter (\<lambda>(p, deps). t \<in> set deps) adj)"
  by (induction adj t rule: analyzeImpactLoop.induct) simp_all

text \<open>
  C10. \<open>detectConflict\<close>, \<open>visualize\<close> and \<open>analyzeImpact\<close> contain no lookup that can
  fail, so their models have no error result: on every graph each of them is a function
  of the adjacency entries that exist, given here in closed form. On the graph with the
  one edge from \<open>pkgA\<close> to the unregistered \<open>pkgB\<close> they return their results, while
  \<open>detectCycle\<close> and \<open>topologicalSort\<close>, which look the target up, raise
  \<open>NotFound\<close>.
\<close>

theorem scans_use_existing_entries_only:
  "detectConflict g =
     (case find (\<lambda>(p, d). version p \<noteq> version d) (edgeList (graph g)) of
        None \<Rightarrow> ([], False)
      | Some (p, d) \<Rightarrow> ([conflictMessage p d], True))
   \<and> visualize g =
       ''digraph dependencies {''
         # map (\<lambda>(p, d). visualizeLine p d) (edgeList (graph g)) @ [''}'']
   \<and> analyzeImpact g t =
       (''Impact analysis for package: '' @ name t)
         # map (impactLine t) (map fst (filter (\<lambda>(p, deps). t \<in> set deps) (graph g)))
   \<and> (pkgA, pkgB) \<in> edges orphanGraph \<and> \<not> packageExists orphanGraph pkgB
   \<and> detectConflict orphanGraph = ([conflictMessage pkgA pkgB], True)
   \<and> visualize orphanGraph = [''digraph dependencies {'', visualizeLine pkgA pkgB, ''}'']
   \<and> analyzeImpact orphanGraph pkgB
       = [''Impact analysis for package: pkgB'', ''Package pkgA depends on pkgB'']
   \<and> detectCycle orphanGraph = Inl NotFound
   \<and> topologicalSort orphanGraph = Inl NotFound"
proof (intro conjI)
  show "detectConflict g =
     (case find (\<lambda>(p, d). version p \<noteq> version d) (edgeList (graph g)) of
        None \<Rightarrow> ([], False)
      | Some (p, d) \<Rightarrow> ([conflictMessage p d], True))"
    by (simp add: detectConflict_def detectConflictLoop_find)
  show "visualize g =
       ''digraph dependencies {''
         # map (\<lambda>(p, d). visualizeLine p d) (edgeList (graph g)) @ [''}'']"
    by (simp add: visualize_def visualizeLoop_edgeList)
  show "analyzeImpact g t =
       (''Impact analysis for package: '' @ name t)
         # map (impactLine t) (map fst (filter (\<lambda>(p, deps). t \<in> set deps) (graph g)))"
    by (simp add: analyzeImpact_def analyzeImpactLoop_filter)
  show "(pkgA, pkgB) \<in> edges orphanGraph" "\<not> packageExists orphanGraph pkgB"
    using orphanGraph_orphan by simp_all
  show "detectConflict orphanGraph = ([conflictMessage pkgA pkgB], True)"
    by (simp add: detectConflict_def orphanGraph_graph resolveVersion_def pkgA_def pkgB_def)
  show "visualize orphanGraph = [''digraph dependencies {'', visualizeLine pkgA pkgB, ''}'']"
    by (simp add: visualize_def orphanGraph_graph)
  show "analyzeImpact orphanGraph pkgB
       = [''Impact analysis for package: pkgB'', ''Package pkgA depends on pkgB'']"
    by (simp add: analyzeImpact_def orphanGraph_graph impactLine_def pkgA_def pkgB_def)
  show "detectCycle orphanGraph = Inl NotFound" by (rule orphanGraph_detectCycle)
  show "topologicalSort orphanGraph = Inl NotFound" by (rule orphanGraph_topologicalSort)
qed


end
